theory Spec2Isabelle
  imports Main "HOL-Library.Multiset"
begin

section \<open>The EuroMillions lottery contract\<close>

text \<open>
  A shallow embedding of the Solidity contract \<open>EuroMillions\<close>. Every external function
  is a HOL function from the call's environment (\<open>msg.sender\<close>, \<open>msg.value\<close>,
  \<open>block.timestamp\<close>) and the contract's storage to either an error (the transaction
  reverts and the storage stays as it was) or the storage after the call.

  \<^item> \<open>uint256\<close> and \<open>uint8\<close> values are natural numbers; Solidity 0.8 checks every
    addition, and the model writes the check out (\<open>checked_add\<close>).
  \<^item> A value of the fixed-size array types \<open>uint8[5]\<close> and \<open>uint8[2]\<close> is a list of
    that length. The loops of the source run over the constant index ranges \<open>0..4\<close> and
    \<open>0..1\<close> and never look at the length of the array, and neither does the model.
  \<^item> A call that sends ether runs the code at the receiving address, and that code may
    call back into the contract before the sending function goes on; the nested calls see
    the storage as it is at that moment. The nesting is bounded by the depth of the call
    stack. \<open>nonReentrant\<close> guards \<open>buyTicket\<close> only, which sends no ether, so the guard
    never fires and is left out.
  \<^item> Gas is not modelled, except that a loop that never exits never returns.
  \<^item> The parts inherited from OpenZeppelin's \<open>Ownable\<close> and \<open>Pausable\<close> and from
    Chainlink's \<open>VRFConsumerBaseV2\<close> are modelled by what those libraries do: an owner
    set to the deployer, a pause flag, and a callback that only the coordinator may call.
\<close>

subsection \<open>Types, constants and errors\<close>

type_synonym address = nat
type_synonym uint256 = nat
type_synonym uint8 = nat

datatype error =
    InvalidMainNumbers
  | InvalidLuckyStars
  | DrawNotActive
  | DrawAlreadyCompleted
  | InsufficientPayment
  | NoWinners
  | TransferFailed
  | DrawNotFound
  | RandomnessAlreadyRequested
  | OwnableCallerIsNotTheOwner
  | OwnableNewOwnerIsTheZeroAddress
  | PausablePaused
  | PausableNotPaused
  | OnlyCoordinatorCanFulfill
  | CoordinatorReverted
  | ActiveDrawExists
  | Panic_Overflow
  | Panic_ArrayOutOfBounds
  | CallDepthExceeded

definition NUM_WORDS :: nat where
  "NUM_WORDS = 7"

definition TICKET_PRICE :: uint256 where
  "TICKET_PRICE = 10000000000000000"

definition HOUSE_FEE_PERCENT :: uint256 where
  "HOUSE_FEE_PERCENT = 1"

definition WINNER_PERCENT :: uint256 where
  "WINNER_PERCENT = 99"

definition SEVEN_DAYS :: uint256 where
  "SEVEN_DAYS = 604800"

definition checked_add :: "uint256 \<Rightarrow> uint256 \<Rightarrow> error + uint256" where
  "checked_add a b = (if a + b < 2 ^ 256 then Inr (a + b) else Inl Panic_Overflow)"

text \<open>Reading \<open>xs[i]\<close>: an index past the end is the panic \<open>0x32\<close>.\<close>

definition read :: "'a list \<Rightarrow> nat \<Rightarrow> error + 'a" where
  "read xs i = (if i < length xs then Inr (xs ! i) else Inl Panic_ArrayOutOfBounds)"

subsection \<open>Pick validation\<close>

text \<open>
  \<open>_validateMainNumbers\<close>: \<open>used\<close> is the \<open>bool[51]\<close> array, the loop runs over
  \<open>i = 0..4\<close>. The index \<open>numbers[i]\<close> into \<open>used\<close> is at most 50 where it is read.
\<close>

function validateMainNumbers_loop :: "nat \<Rightarrow> uint8 list \<Rightarrow> bool list \<Rightarrow> error + unit" where
  "validateMainNumbers_loop i numbers used =
     (if i < 5 then
        (case read numbers i of
           Inl e \<Rightarrow> Inl e
         | Inr n \<Rightarrow>
             if n < 1 \<or> n > 50 then Inl InvalidMainNumbers
             else if used ! n then Inl InvalidMainNumbers
             else validateMainNumbers_loop (i + 1) numbers (used[n := True]))
      else Inr ())"
  by pat_completeness auto
termination
  by (relation "measure (\<lambda>(i, numbers, used). 5 - i)") auto

definition validateMainNumbers :: "uint8 list \<Rightarrow> error + unit" where
  "validateMainNumbers numbers = validateMainNumbers_loop 0 numbers (replicate 51 False)"

text \<open>\<open>_validateLuckyStars\<close>: the same loop over \<open>i = 0..1\<close> with a \<open>bool[13]\<close> array.\<close>

function validateLuckyStars_loop :: "nat \<Rightarrow> uint8 list \<Rightarrow> bool list \<Rightarrow> error + unit" where
  "validateLuckyStars_loop i stars used =
     (if i < 2 then
        (case read stars i of
           Inl e \<Rightarrow> Inl e
         | Inr n \<Rightarrow>
             if n < 1 \<or> n > 12 then Inl InvalidLuckyStars
             else if used ! n then Inl InvalidLuckyStars
             else validateLuckyStars_loop (i + 1) stars (used[n := True]))
      else Inr ())"
  by pat_completeness auto
termination
  by (relation "measure (\<lambda>(i, stars, used). 2 - i)") auto

definition validateLuckyStars :: "uint8 list \<Rightarrow> error + unit" where
  "validateLuckyStars stars = validateLuckyStars_loop 0 stars (replicate 13 False)"

declare validateMainNumbers_loop.simps [simp del]
declare validateLuckyStars_loop.simps [simp del]

subsection \<open>Sorting and ticket matching\<close>

text \<open>
  \<open>_sortMainNumbers\<close>: a bubble sort of the five elements, \<open>i = 0..3\<close> and
  \<open>j = 0..3-i\<close>, swapping \<open>numbers[j]\<close> and \<open>numbers[j+1]\<close> through \<open>temp\<close>.
\<close>

definition swap_if_greater :: "uint8 list \<Rightarrow> nat \<Rightarrow> uint8 list" where
  "swap_if_greater numbers j =
     (if numbers ! j > numbers ! (j + 1) then
        (let temp = numbers ! j;
             numbers1 = numbers[j := numbers ! (j + 1)]
         in numbers1[j + 1 := temp])
      else numbers)"

definition sortMainNumbers :: "uint8 list \<Rightarrow> uint8 list" where
  "sortMainNumbers numbers =
     fold (\<lambda>i ns. fold (\<lambda>j ns'. swap_if_greater ns' j) [0..<4 - i] ns) [0..<4] numbers"

definition sortLuckyStars :: "uint8 list \<Rightarrow> uint8 list" where
  "sortLuckyStars stars =
     (if stars ! 0 > stars ! 1 then
        (let temp = stars ! 0;
             stars1 = stars[0 := stars ! 1]
         in stars1[1 := temp])
      else stars)"

record Ticket =
  mainNumbers :: "uint8 list"
  luckyStars :: "uint8 list"
  player :: address
  timestamp :: uint256

text \<open>
  \<open>_isWinningTicket\<close>: the two loops return \<open>false\<close> at the first index where the
  sorted ticket and the winning numbers differ.
\<close>

definition isWinningTicket :: "Ticket \<Rightarrow> uint8 list \<Rightarrow> uint8 list \<Rightarrow> bool" where
  "isWinningTicket ticket winMain winStars =
     (let sortedMainNumbers = sortMainNumbers (mainNumbers ticket);
          sortedLuckyStars = sortLuckyStars (luckyStars ticket)
      in if list_ex (\<lambda>i. sortedMainNumbers ! i \<noteq> winMain ! i) [0..<5] then False
         else if list_ex (\<lambda>i. sortedLuckyStars ! i \<noteq> winStars ! i) [0..<2] then False
         else True)"

subsection \<open>Storage and the environment of a call\<close>

record Draw =
  drawId :: uint256
  totalPrizePool :: uint256
  totalTickets :: uint256
  winningMainNumbers :: "uint8 list"
  winningLuckyStars :: "uint8 list"
  winners :: "address list"
  isCompleted :: bool
  randomnessRequested :: bool
  drawStartTime :: uint256
  drawEndTime :: uint256
  ticketCounts :: "address \<Rightarrow> uint256"
  players :: "address list"

text \<open>
  The contract's storage, with the state of the inherited \<open>Ownable\<close> (\<open>owner\<close>) and
  \<open>Pausable\<close> (\<open>paused\<close>) and the immutable coordinator address. \<open>balance\<close> is
  \<open>address(this).balance\<close>; \<open>paid a\<close> is the ether the contract has sent to \<open>a\<close>.
\<close>

record state =
  currentDrawId :: uint256
  draws :: "uint256 \<Rightarrow> Draw"
  playerTickets :: "uint256 \<Rightarrow> address \<Rightarrow> Ticket list"
  vrfRequestIdToDraw :: "uint256 \<Rightarrow> uint256"
  vrfCoordinator :: address
  owner :: address
  paused :: bool
  balance :: uint256
  paid :: "address \<Rightarrow> uint256"

text \<open>The external functions that change the storage, as calls with their arguments.\<close>

datatype call =
    BuyTicket "uint8 list" "uint8 list"
  | RequestDrawRandomness "uint256 option"
  | RawFulfillRandomWords uint256 "uint256 list"
  | Pause
  | Unpause
  | EmergencyWithdraw
  | TransferOwnership address
  | RenounceOwnership

text \<open>
  What a call sees of the chain: the sender, the value sent, the block's timestamp, and
  the code at the other addresses, as far as it matters when the contract sends ether to
  them. \<open>accepts a\<close>: whether the code at \<open>a\<close>, called with empty data and some value,
  returns successfully. \<open>calls_back a s\<close>: the calls, each with the value it carries,
  that the code at \<open>a\<close> makes into this contract while it runs, \<open>s\<close> being the
  contract's storage at that moment, with \<open>a\<close> as their sender. \<open>depth\<close>: how many
  levels of such nested calls the call stack still has room for.
  Only \<open>buyTicket\<close> is payable and reads \<open>msg_value\<close>; the other functions are
  modelled for calls that carry no value.
\<close>

record env =
  msg_sender :: address
  msg_value :: uint256
  block_timestamp :: uint256
  accepts :: "address \<Rightarrow> bool"
  calls_back :: "address \<Rightarrow> state \<Rightarrow> (uint256 \<times> call) list"
  depth :: nat

text \<open>A storage slot never written: every field is zero.\<close>

definition zero_Draw :: Draw where
  "zero_Draw =
     \<lparr>drawId = 0, totalPrizePool = 0, totalTickets = 0,
      winningMainNumbers = [0, 0, 0, 0, 0], winningLuckyStars = [0, 0],
      winners = [], isCompleted = False, randomnessRequested = False,
      drawStartTime = 0, drawEndTime = 0, ticketCounts = (\<lambda>a. 0), players = []\<rparr>"

text \<open>
  The functions that send ether take \<open>run\<close>, which executes a call into the contract
  made from inside the transfer; it is bound to the contract's own functions, one level
  deeper, where the transactions are defined.
\<close>

type_synonym runner = "env \<Rightarrow> call \<Rightarrow> state \<Rightarrow> (error + state) option"

text \<open>
  The calls that the code at \<open>a\<close> makes while it runs. A nested call that reverts, or
  that uses up the gas it was given without returning, leaves the storage as it was, and
  the code at \<open>a\<close> goes on.
\<close>

fun run_calls :: "runner \<Rightarrow> env \<Rightarrow> address \<Rightarrow> (uint256 \<times> call) list \<Rightarrow> state \<Rightarrow> state" where
  "run_calls run e a [] s = s"
| "run_calls run e a ((v, c) # cs) s =
     (case run (e\<lparr>msg_sender := a, msg_value := v\<rparr>) c s of
        Some (Inr s') \<Rightarrow> run_calls run e a cs s'
      | _ \<Rightarrow> run_calls run e a cs s)"

text \<open>
  \<open>(bool success, ) = payable(to).call{value: v}(""); if (!success) revert TransferFailed();\<close>
  The value moves, then the code at \<open>to\<close> runs with the calls it makes.
\<close>

definition send_value :: "runner \<Rightarrow> env \<Rightarrow> address \<Rightarrow> uint256 \<Rightarrow> state \<Rightarrow> error + state" where
  "send_value run e to v s =
     (if v \<le> balance s \<and> accepts e to then
        (let s1 = s\<lparr>balance := balance s - v, paid := (paid s)(to := paid s to + v)\<rparr>
         in Inr (run_calls run e to (calls_back e to s1) s1))
      else Inl TransferFailed)"

subsection \<open>Starting a draw\<close>

text \<open>\<open>_startNewDraw\<close>; \<open>currentDrawId++\<close> and \<open>block.timestamp + 7 days\<close> are checked.\<close>

definition startNewDraw :: "env \<Rightarrow> state \<Rightarrow> error + state" where
  "startNewDraw e s =
     (case checked_add (currentDrawId s) 1 of
        Inl err \<Rightarrow> Inl err
      | Inr newId \<Rightarrow>
          (case checked_add (block_timestamp e) SEVEN_DAYS of
             Inl err \<Rightarrow> Inl err
           | Inr endTime \<Rightarrow>
               Inr (s\<lparr>currentDrawId := newId,
                      draws := (draws s)(newId := (draws s newId)
                        \<lparr>drawId := newId,
                         drawStartTime := block_timestamp e,
                         drawEndTime := endTime,
                         totalPrizePool := 0,
                         totalTickets := 0,
                         isCompleted := False,
                         randomnessRequested := False\<rparr>)\<rparr>)))"

text \<open>
  The constructor: the storage is zero, \<open>Ownable\<close> makes the deployer the owner, and the
  first draw starts.
\<close>

definition constructor :: "env \<Rightarrow> address \<Rightarrow> error + state" where
  "constructor e vrfCoordinatorV2 =
     startNewDraw e
       \<lparr>currentDrawId = 0, draws = (\<lambda>d. zero_Draw), playerTickets = (\<lambda>d a. []),
        vrfRequestIdToDraw = (\<lambda>r. 0), vrfCoordinator = vrfCoordinatorV2,
        owner = msg_sender e, paused = False, balance = 0, paid = (\<lambda>a. 0)\<rparr>"

subsection \<open>Buying a ticket\<close>

text \<open>
  \<open>buyTicket\<close>, with its modifiers in the order they are written: \<open>onlyActiveDraw\<close>,
  \<open>whenNotPaused\<close>, then the body. The value sent is added to the contract's balance.
  The three increments are checked additions.
\<close>

definition buyTicket :: "env \<Rightarrow> uint8 list \<Rightarrow> uint8 list \<Rightarrow> state \<Rightarrow> error + state" where
  "buyTicket e mainNums stars s =
     (let cur = currentDrawId s; currentDraw = draws s cur; sender = msg_sender e in
      if block_timestamp e < drawStartTime currentDraw \<or> block_timestamp e > drawEndTime currentDraw
      then Inl DrawNotActive
      else if paused s then Inl PausablePaused
      else if msg_value e \<noteq> TICKET_PRICE then Inl InsufficientPayment
      else
        (case validateMainNumbers mainNums of
           Inl err \<Rightarrow> Inl err
         | Inr u \<Rightarrow>
        (case validateLuckyStars stars of
           Inl err \<Rightarrow> Inl err
         | Inr u' \<Rightarrow>
        (case checked_add (ticketCounts currentDraw sender) 1 of
           Inl err \<Rightarrow> Inl err
         | Inr counted \<Rightarrow>
        (case checked_add (totalTickets currentDraw) 1 of
           Inl err \<Rightarrow> Inl err
         | Inr tickets \<Rightarrow>
        (case checked_add (totalPrizePool currentDraw) (msg_value e) of
           Inl err \<Rightarrow> Inl err
         | Inr pool \<Rightarrow>
             Inr (s\<lparr>playerTickets := (playerTickets s)(cur := (playerTickets s cur)
                      (sender := playerTickets s cur sender @
                         [\<lparr>mainNumbers = mainNums, luckyStars = stars, player = sender,
                           timestamp = block_timestamp e\<rparr>])),
                    draws := (draws s)(cur := currentDraw
                      \<lparr>players := (if ticketCounts currentDraw sender = 0
                                   then players currentDraw @ [sender]
                                   else players currentDraw),
                       ticketCounts := (ticketCounts currentDraw)(sender := counted),
                       totalTickets := tickets,
                       totalPrizePool := pool\<rparr>),
                    balance := balance s + msg_value e\<rparr>)))))))"

subsection \<open>Requesting randomness\<close>

text \<open>
  \<open>requestDrawRandomness\<close>: \<open>onlyOwner\<close>, then the three checks in the order of the
  source. \<open>reply\<close> is what the coordinator's \<open>requestRandomWords\<close> returns: the request
  id, or \<open>None\<close> when that external call reverts, which reverts this call too.
\<close>

definition requestDrawRandomness :: "env \<Rightarrow> uint256 option \<Rightarrow> state \<Rightarrow> error + state" where
  "requestDrawRandomness e reply s =
     (let cur = currentDrawId s; currentDraw = draws s cur in
      if msg_sender e \<noteq> owner s then Inl OwnableCallerIsNotTheOwner
      else if block_timestamp e \<le> drawEndTime currentDraw then Inl DrawNotActive
      else if randomnessRequested currentDraw then Inl RandomnessAlreadyRequested
      else if isCompleted currentDraw then Inl DrawAlreadyCompleted
      else
        (case reply of
           None \<Rightarrow> Inl CoordinatorReverted
         | Some requestId \<Rightarrow>
             Inr (s\<lparr>draws := (draws s)(cur := currentDraw\<lparr>randomnessRequested := True\<rparr>),
                    vrfRequestIdToDraw := (vrfRequestIdToDraw s)(requestId := cur)\<rparr>)))"

subsection \<open>Settlement\<close>

text \<open>
  The winner scan of \<open>_findWinnersAndDistribute\<close>: the inner loop over one player's
  tickets and the outer loop over \<open>draw.players\<close>. \<open>winnersArr\<close> is the memory array
  \<open>winners\<close> of length \<open>draw.totalTickets\<close>; writing past its end is the panic \<open>0x32\<close>.
\<close>

fun scanTickets ::
  "Ticket list \<Rightarrow> address \<Rightarrow> uint8 list \<Rightarrow> uint8 list \<Rightarrow> address list \<Rightarrow> nat
     \<Rightarrow> error + (address list \<times> nat)" where
  "scanTickets [] pl winMain winStars winnersArr winnerCount = Inr (winnersArr, winnerCount)"
| "scanTickets (t # ts) pl winMain winStars winnersArr winnerCount =
     (if isWinningTicket t winMain winStars then
        (if winnerCount < length winnersArr
         then scanTickets ts pl winMain winStars (winnersArr[winnerCount := pl]) (winnerCount + 1)
         else Inl Panic_ArrayOutOfBounds)
      else scanTickets ts pl winMain winStars winnersArr winnerCount)"

fun scanPlayers ::
  "address list \<Rightarrow> (address \<Rightarrow> Ticket list) \<Rightarrow> uint8 list \<Rightarrow> uint8 list \<Rightarrow> address list \<Rightarrow> nat
     \<Rightarrow> error + (address list \<times> nat)" where
  "scanPlayers [] tickets winMain winStars winnersArr winnerCount = Inr (winnersArr, winnerCount)"
| "scanPlayers (pl # pls) tickets winMain winStars winnersArr winnerCount =
     (case scanTickets (tickets pl) pl winMain winStars winnersArr winnerCount of
        Inl err \<Rightarrow> Inl err
      | Inr (winnersArr', winnerCount') \<Rightarrow>
          scanPlayers pls tickets winMain winStars winnersArr' winnerCount')"

text \<open>The loop that sends \<open>prizePerWinner\<close> to every entry of \<open>finalWinners\<close>.\<close>

fun payWinners :: "runner \<Rightarrow> env \<Rightarrow> address list \<Rightarrow> uint256 \<Rightarrow> state \<Rightarrow> error + state" where
  "payWinners run e [] prizePerWinner s = Inr s"
| "payWinners run e (w # ws) prizePerWinner s =
     (case send_value run e w prizePerWinner s of
        Inl err \<Rightarrow> Inl err
      | Inr s' \<Rightarrow> payWinners run e ws prizePerWinner s')"

text \<open>
  \<open>_findWinnersAndDistribute\<close>. The product \<open>totalPrizePool * HOUSE_FEE_PERCENT\<close> is a
  product with 1 and the difference \<open>totalPrizePool - houseFee\<close> is never negative, so
  their checks never fail. The winners and \<open>isCompleted\<close> are written before the
  transfers, and the next draw starts after them.
\<close>

definition findWinnersAndDistribute_with ::
  "runner \<Rightarrow> env \<Rightarrow> uint256 \<Rightarrow> state \<Rightarrow> error + state" where
  "findWinnersAndDistribute_with run e dId s =
     (let draw = draws s dId in
      case scanPlayers (players draw) (playerTickets s dId)
             (winningMainNumbers draw) (winningLuckyStars draw)
             (replicate (totalTickets draw) 0) 0 of
        Inl err \<Rightarrow> Inl err
      | Inr (winnersArr, winnerCount) \<Rightarrow>
          (let finalWinners = map (\<lambda>i. winnersArr ! i) [0..<winnerCount];
               s1 = s\<lparr>draws := (draws s)(dId := draw\<lparr>winners := finalWinners, isCompleted := True\<rparr>)\<rparr>
           in
             if winnerCount > 0 then
               (let houseFee = (totalPrizePool draw * HOUSE_FEE_PERCENT) div 100;
                    totalWinnings = totalPrizePool draw - houseFee;
                    prizePerWinner = totalWinnings div winnerCount
                in
                  case send_value run e (owner s1) houseFee s1 of
                    Inl err \<Rightarrow> Inl err
                  | Inr s2 \<Rightarrow>
                      (case payWinners run e finalWinners prizePerWinner s2 of
                         Inl err \<Rightarrow> Inl err
                       | Inr s3 \<Rightarrow> startNewDraw e s3))
             else startNewDraw e s1))"

subsection \<open>Delivery of the random words\<close>

text \<open>
  The \<open>do ... while (usedMainNumbers[number])\<close> loop of \<open>fulfillRandomWords\<close>. Its body
  reads \<open>randomWords[i]\<close> again on every round and changes neither the word nor the array
  \<open>usedMainNumbers\<close>. A call that does not return is \<open>None\<close>. The value
  \<open>(randomWords[i] % 50) + 1\<close> is at most 50, so the cast to \<open>uint8\<close> keeps it.
\<close>

partial_function (option) mainNumber_doWhile ::
  "uint256 list \<Rightarrow> nat \<Rightarrow> bool list \<Rightarrow> (error + uint8) option" where
  "mainNumber_doWhile randomWords i usedMainNumbers =
     (case read randomWords i of
        Inl err \<Rightarrow> Some (Inl err)
      | Inr w \<Rightarrow>
          (let number = (w mod 50) + 1 in
           if usedMainNumbers ! number then mainNumber_doWhile randomWords i usedMainNumbers
           else Some (Inr number)))"

partial_function (option) luckyStar_doWhile ::
  "uint256 list \<Rightarrow> nat \<Rightarrow> bool list \<Rightarrow> (error + uint8) option" where
  "luckyStar_doWhile randomWords i usedLuckyStars =
     (case read randomWords (i + 5) of
        Inl err \<Rightarrow> Some (Inl err)
      | Inr w \<Rightarrow>
          (let star = (w mod 12) + 1 in
           if usedLuckyStars ! star then luckyStar_doWhile randomWords i usedLuckyStars
           else Some (Inr star)))"

text \<open>The two \<open>for\<close> loops around them, over \<open>i = 0..4\<close> and \<open>i = 0..1\<close>.\<close>

function mainNumbers_for ::
  "nat \<Rightarrow> uint256 list \<Rightarrow> bool list \<Rightarrow> uint8 list \<Rightarrow> (error + uint8 list) option" where
  "mainNumbers_for i randomWords usedMainNumbers winMain =
     (if i < 5 then
        (case mainNumber_doWhile randomWords i usedMainNumbers of
           None \<Rightarrow> None
         | Some (Inl err) \<Rightarrow> Some (Inl err)
         | Some (Inr number) \<Rightarrow>
             mainNumbers_for (i + 1) randomWords (usedMainNumbers[number := True])
               (winMain[i := number]))
      else Some (Inr winMain))"
  by pat_completeness auto
termination
  by (relation "measure (\<lambda>(i, randomWords, usedMainNumbers, winMain). 5 - i)") auto

function luckyStars_for ::
  "nat \<Rightarrow> uint256 list \<Rightarrow> bool list \<Rightarrow> uint8 list \<Rightarrow> (error + uint8 list) option" where
  "luckyStars_for i randomWords usedLuckyStars winStars =
     (if i < 2 then
        (case luckyStar_doWhile randomWords i usedLuckyStars of
           None \<Rightarrow> None
         | Some (Inl err) \<Rightarrow> Some (Inl err)
         | Some (Inr star) \<Rightarrow>
             luckyStars_for (i + 1) randomWords (usedLuckyStars[star := True])
               (winStars[i := star]))
      else Some (Inr winStars))"
  by pat_completeness auto
termination
  by (relation "measure (\<lambda>(i, randomWords, usedLuckyStars, winStars). 2 - i)") auto

declare mainNumbers_for.simps [simp del]
declare luckyStars_for.simps [simp del]

text \<open>
  \<open>fulfillRandomWords\<close>: \<open>None\<close> when a rejection loop does not exit, otherwise the
  error or the storage after settlement.
\<close>

definition fulfillRandomWords_with ::
  "runner \<Rightarrow> env \<Rightarrow> uint256 \<Rightarrow> uint256 list \<Rightarrow> state \<Rightarrow> (error + state) option" where
  "fulfillRandomWords_with run e requestId randomWords s =
     (let dId = vrfRequestIdToDraw s requestId; draw = draws s dId in
      if isCompleted draw then Some (Inr s)
      else
        (case mainNumbers_for 0 randomWords (replicate 51 False) [0, 0, 0, 0, 0] of
           None \<Rightarrow> None
         | Some (Inl err) \<Rightarrow> Some (Inl err)
         | Some (Inr winMain) \<Rightarrow>
        (case luckyStars_for 0 randomWords (replicate 13 False) [0, 0] of
           None \<Rightarrow> None
         | Some (Inl err) \<Rightarrow> Some (Inl err)
         | Some (Inr winStars) \<Rightarrow>
             Some (findWinnersAndDistribute_with run e dId
                     (s\<lparr>draws := (draws s)(dId := draw
                          \<lparr>winningMainNumbers := sortMainNumbers winMain,
                           winningLuckyStars := sortLuckyStars winStars\<rparr>)\<rparr>)))))"

text \<open>
  \<open>rawFulfillRandomWords\<close> of the inherited \<open>VRFConsumerBaseV2\<close>, the external entry of
  the callback: only the coordinator may call it.
\<close>

definition rawFulfillRandomWords_with ::
  "runner \<Rightarrow> env \<Rightarrow> uint256 \<Rightarrow> uint256 list \<Rightarrow> state \<Rightarrow> (error + state) option" where
  "rawFulfillRandomWords_with run e requestId randomWords s =
     (if msg_sender e \<noteq> vrfCoordinator s then Some (Inl OnlyCoordinatorCanFulfill)
      else fulfillRandomWords_with run e requestId randomWords s)"

subsection \<open>Administration\<close>

text \<open>\<open>pause\<close> and \<open>unpause\<close>: \<open>onlyOwner\<close>, then \<open>Pausable\<close>'s own guard.\<close>

definition pause :: "env \<Rightarrow> state \<Rightarrow> error + state" where
  "pause e s =
     (if msg_sender e \<noteq> owner s then Inl OwnableCallerIsNotTheOwner
      else if paused s then Inl PausablePaused
      else Inr (s\<lparr>paused := True\<rparr>))"

definition unpause :: "env \<Rightarrow> state \<Rightarrow> error + state" where
  "unpause e s =
     (if msg_sender e \<noteq> owner s then Inl OwnableCallerIsNotTheOwner
      else if \<not> paused s then Inl PausableNotPaused
      else Inr (s\<lparr>paused := False\<rparr>))"

text \<open>
  \<open>emergencyWithdraw\<close>: \<open>onlyOwner\<close>, \<open>whenPaused\<close>, the \<open>require\<close>, the transfer.
  The function has no guard against being entered from inside another call.
\<close>

definition emergencyWithdraw_with :: "runner \<Rightarrow> env \<Rightarrow> state \<Rightarrow> error + state" where
  "emergencyWithdraw_with run e s =
     (if msg_sender e \<noteq> owner s then Inl OwnableCallerIsNotTheOwner
      else if \<not> paused s then Inl PausableNotPaused
      else if \<not> isCompleted (draws s (currentDrawId s)) then Inl ActiveDrawExists
      else send_value run e (owner s) (balance s) s)"

text \<open>\<open>transferOwnership\<close> and \<open>renounceOwnership\<close> of the inherited \<open>Ownable\<close>.\<close>

definition transferOwnership :: "env \<Rightarrow> address \<Rightarrow> state \<Rightarrow> error + state" where
  "transferOwnership e newOwner s =
     (if msg_sender e \<noteq> owner s then Inl OwnableCallerIsNotTheOwner
      else if newOwner = 0 then Inl OwnableNewOwnerIsTheZeroAddress
      else Inr (s\<lparr>owner := newOwner\<rparr>))"

definition renounceOwnership :: "env \<Rightarrow> state \<Rightarrow> error + state" where
  "renounceOwnership e s =
     (if msg_sender e \<noteq> owner s then Inl OwnableCallerIsNotTheOwner
      else Inr (s\<lparr>owner := 0\<rparr>))"

subsection \<open>Transactions and reachable states\<close>

text \<open>One call into the contract, the calls nested in it being executed by \<open>run\<close>.\<close>

fun step :: "runner \<Rightarrow> env \<Rightarrow> call \<Rightarrow> state \<Rightarrow> (error + state) option" where
  "step run e (BuyTicket mainNums stars) s = Some (buyTicket e mainNums stars s)"
| "step run e (RequestDrawRandomness reply) s = Some (requestDrawRandomness e reply s)"
| "step run e (RawFulfillRandomWords requestId randomWords) s =
     rawFulfillRandomWords_with run e requestId randomWords s"
| "step run e Pause s = Some (pause e s)"
| "step run e Unpause s = Some (unpause e s)"
| "step run e EmergencyWithdraw s = Some (emergencyWithdraw_with run e s)"
| "step run e (TransferOwnership newOwner) s = Some (transferOwnership e newOwner s)"
| "step run e RenounceOwnership s = Some (renounceOwnership e s)"

text \<open>
  \<open>exec_at d\<close> executes a call below which \<open>d\<close> further levels of nested calls fit on
  the call stack: the calls nested in it run by \<open>exec_at (d - 1)\<close>, and where no level
  is left a nested call fails.
\<close>

definition no_calls :: runner where
  "no_calls e c s = Some (Inl CallDepthExceeded)"

primrec exec_at :: "nat \<Rightarrow> runner" where
  "exec_at 0 = step no_calls"
| "exec_at (Suc d) = step (exec_at d)"

definition nested :: "env \<Rightarrow> runner" where
  "nested e = (case depth e of 0 \<Rightarrow> no_calls | Suc d \<Rightarrow> exec_at d)"

text \<open>
  The functions as they run in a transaction with the environment \<open>e\<close>: the calls nested
  in them are executed by the contract itself, one level deeper.
\<close>

definition findWinnersAndDistribute :: "env \<Rightarrow> uint256 \<Rightarrow> state \<Rightarrow> error + state" where
  "findWinnersAndDistribute e dId s = findWinnersAndDistribute_with (nested e) e dId s"

definition fulfillRandomWords ::
  "env \<Rightarrow> uint256 \<Rightarrow> uint256 list \<Rightarrow> state \<Rightarrow> (error + state) option" where
  "fulfillRandomWords e requestId randomWords s =
     fulfillRandomWords_with (nested e) e requestId randomWords s"

definition rawFulfillRandomWords ::
  "env \<Rightarrow> uint256 \<Rightarrow> uint256 list \<Rightarrow> state \<Rightarrow> (error + state) option" where
  "rawFulfillRandomWords e requestId randomWords s =
     rawFulfillRandomWords_with (nested e) e requestId randomWords s"

definition emergencyWithdraw :: "env \<Rightarrow> state \<Rightarrow> error + state" where
  "emergencyWithdraw e s = emergencyWithdraw_with (nested e) e s"

definition exec :: "env \<Rightarrow> call \<Rightarrow> state \<Rightarrow> (error + state) option" where
  "exec e c s = step (nested e) e c s"

text \<open>
  The states the contract can be in between transactions: the state the constructor
  leaves, and every state a successful call leads to from such a state, whatever the
  receivers of ether do inside it. A call that reverts or does not return changes nothing.
\<close>

inductive reachable :: "state \<Rightarrow> bool" where
  reachable_constructor: "constructor e vrfCoordinatorV2 = Inr s \<Longrightarrow> reachable s"
| reachable_exec: "reachable s \<Longrightarrow> exec e c s = Some (Inr s') \<Longrightarrow> reachable s'"

text \<open>A sequence of calls, every one of which succeeds.\<close>

fun execs :: "(env \<times> call) list \<Rightarrow> state \<Rightarrow> state option" where
  "execs [] s = Some s"
| "execs ((e, c) # cs) s =
     (case exec e c s of Some (Inr s') \<Rightarrow> execs cs s' | _ \<Rightarrow> None)"

subsection \<open>Notions used to state the properties\<close>

text \<open>
  The winning tickets a participant holds in a draw, and the list that names every
  participant of the draw once per winning ticket, in the order of the scan.
\<close>

definition winningTickets :: "state \<Rightarrow> uint256 \<Rightarrow> address \<Rightarrow> Ticket list" where
  "winningTickets s dId a =
     filter (\<lambda>t. isWinningTicket t (winningMainNumbers (draws s dId))
                   (winningLuckyStars (draws s dId)))
       (playerTickets s dId a)"

definition winnerList :: "state \<Rightarrow> uint256 \<Rightarrow> address list" where
  "winnerList s dId =
     concat (map (\<lambda>pl. map (\<lambda>t. pl) (winningTickets s dId pl)) (players (draws s dId)))"

text \<open>All ticket records stored under a draw, participant by participant.\<close>

definition ticketsOf :: "state \<Rightarrow> uint256 \<Rightarrow> Ticket list" where
  "ticketsOf s dId = concat (map (playerTickets s dId) (players (draws s dId)))"

text \<open>
  The bookkeeping of a draw: the pool is the price of the tickets counted, the counter is
  the number of ticket records, and the participants are listed once each, exactly those
  who hold a record, with their counts. A draw that has not started has no participants
  and no records.
\<close>

definition ledger_ok :: "state \<Rightarrow> uint256 \<Rightarrow> bool" where
  "ledger_ok s d \<longleftrightarrow>
     totalPrizePool (draws s d) = TICKET_PRICE * totalTickets (draws s d) \<and>
     totalTickets (draws s d) = length (ticketsOf s d) \<and>
     distinct (players (draws s d)) \<and>
     (\<forall>a. a \<in> set (players (draws s d)) \<longleftrightarrow> playerTickets s d a \<noteq> []) \<and>
     (\<forall>a. ticketCounts (draws s d) a = length (playerTickets s d a))"

definition unused :: "state \<Rightarrow> uint256 \<Rightarrow> bool" where
  "unused s d \<longleftrightarrow>
     players (draws s d) = [] \<and> (\<forall>a. playerTickets s d a = []) \<and>
     (\<forall>a. ticketCounts (draws s d) a = 0)"

definition ledger_inv :: "state \<Rightarrow> bool" where
  "ledger_inv s \<longleftrightarrow> (\<forall>d. ledger_ok s d \<and> (currentDrawId s < d \<longrightarrow> unused s d))"

text \<open>
  A property of the storage is kept by \<open>run\<close> when every successful call keeps it. It is
  stable when every write of the contract keeps it: the move of a value, the writes of a
  delivery to a draw that is not completed, the start of a draw, a purchase, a request,
  and the writes to the pause flag and the owner.
\<close>

definition preserved :: "(state \<Rightarrow> bool) \<Rightarrow> runner \<Rightarrow> bool" where
  "preserved I run \<longleftrightarrow> (\<forall>e c s s'. I s \<longrightarrow> run e c s = Some (Inr s') \<longrightarrow> I s')"

definition stable :: "(state \<Rightarrow> bool) \<Rightarrow> bool" where
  "stable I \<longleftrightarrow>
     (\<forall>s v to. I s \<longrightarrow> v \<le> balance s \<longrightarrow>
        I (s\<lparr>balance := balance s - v, paid := (paid s)(to := paid s to + v)\<rparr>)) \<and>
     (\<forall>s d winMain winStars. I s \<longrightarrow> \<not> isCompleted (draws s d) \<longrightarrow>
        I (s\<lparr>draws := (draws s)(d := (draws s d)
             \<lparr>winningMainNumbers := winMain, winningLuckyStars := winStars\<rparr>)\<rparr>)) \<and>
     (\<forall>s d ws. I s \<longrightarrow> \<not> isCompleted (draws s d) \<longrightarrow>
        I (s\<lparr>draws := (draws s)(d := (draws s d)\<lparr>winners := ws, isCompleted := True\<rparr>)\<rparr>)) \<and>
     (\<forall>e s s'. I s \<longrightarrow> startNewDraw e s = Inr s' \<longrightarrow> I s') \<and>
     (\<forall>e mainNums stars s s'. I s \<longrightarrow> buyTicket e mainNums stars s = Inr s' \<longrightarrow> I s') \<and>
     (\<forall>e reply s s'. I s \<longrightarrow> requestDrawRandomness e reply s = Inr s' \<longrightarrow> I s') \<and>
     (\<forall>s b. I s \<longrightarrow> I (s\<lparr>paused := b\<rparr>)) \<and>
     (\<forall>s a. I s \<longrightarrow> I (s\<lparr>owner := a\<rparr>))"

subsection \<open>A sample run\<close>

text \<open>
  Every address accepts ether and none calls back, unless said otherwise.
  The operator \<open>1000\<close> deploys at time 100 with coordinator \<open>2000\<close>; the first draw is
  open until 604900. Participant \<open>1001\<close> buys two tickets and \<open>1002\<close> one; after the
  window the operator requests randomness (request 1) and the coordinator delivers words
  that give the picks \<open>[2,3,4,5,6]\<close> and \<open>[2,3]\<close>, which both tickets of \<open>1001\<close> match.
\<close>

definition env_at :: "address \<Rightarrow> uint256 \<Rightarrow> uint256 \<Rightarrow> env" where
  "env_at sender val time =
     \<lparr>msg_sender = sender, msg_value = val, block_timestamp = time, accepts = (\<lambda>a. True),
      calls_back = (\<lambda>a s. []), depth = 0\<rparr>"

definition genesis :: state where
  "genesis = projr (constructor (env_at 1000 0 100) 2000)"

definition sales :: "(env \<times> call) list" where
  "sales =
     [(env_at 1001 TICKET_PRICE 200, BuyTicket [6, 5, 4, 3, 2] [3, 2]),
      (env_at 1001 TICKET_PRICE 300, BuyTicket [2, 3, 4, 5, 6] [2, 3]),
      (env_at 1002 TICKET_PRICE 400, BuyTicket [7, 8, 9, 10, 11] [4, 5])]"

definition sold :: state where
  "sold = the (execs sales genesis)"

definition pending :: state where
  "pending = the (execs [(env_at 1000 0 700000, RequestDrawRandomness (Some 1))] sold)"

definition settled :: state where
  "settled =
     the (execs [(env_at 2000 0 700100, RawFulfillRandomWords 1 [1, 2, 3, 4, 5, 1, 2])] pending)"

text \<open>
  The storage inside that delivery, after the winning numbers are written and before the
  settlement runs.
\<close>

definition drawn :: state where
  "drawn = pending\<lparr>draws := (draws pending)(1 := (draws pending 1)
             \<lparr>winningMainNumbers := [2, 3, 4, 5, 6], winningLuckyStars := [2, 3]\<rparr>)\<rparr>"

text \<open>
  Another end of the run: the delivered words give picks that no ticket matches, the pool
  stays in the balance, and the operator pauses the contract.
\<close>

definition unlucky :: state where
  "unlucky =
     the (execs [(env_at 2000 0 700100, RawFulfillRandomWords 1 [10, 20, 30, 40, 45, 5, 7]),
                 (env_at 1000 0 700200, Pause)] pending)"

text \<open>
  A third end of the run. After the delivery without winners the pool of draw 1 is in the
  balance and draw 2 is open until 1304900. The operator buys a ticket of draw 2, pauses
  the contract and, after the window, requests randomness (request 2).
\<close>

definition reloaded :: state where
  "reloaded =
     the (execs [(env_at 2000 0 700100, RawFulfillRandomWords 1 [10, 20, 30, 40, 45, 5, 7]),
                 (env_at 1000 TICKET_PRICE 700150, BuyTicket [2, 3, 4, 5, 6] [2, 3]),
                 (env_at 1000 0 700200, Pause),
                 (env_at 1000 0 1304901, RequestDrawRandomness (Some 2))] pending)"

text \<open>
  The coordinator delivers for request 2 the words that make the operator's ticket win.
  The operator is a contract: its code stays quiet when the house fee of draw 2 arrives
  and calls \<open>emergencyWithdraw\<close> when it has been paid more than that and the contract
  still holds ether, which is when its prize arrives. One level of nested calls is enough
  for that.
\<close>

definition reentering :: env where
  "reentering =
     (env_at 2000 0 1305000)
       \<lparr>calls_back := (\<lambda>a s. if a = 1000 \<and> 100000000000000 < paid s 1000 \<and> 0 < balance s
                              then [(0, EmergencyWithdraw)] else []),
        depth := 1\<rparr>"

definition raided :: state where
  "raided = the (execs [(reentering, RawFulfillRandomWords 2 [1, 2, 3, 4, 5, 1, 2])] reloaded)"

text \<open>
  The storage inside that delivery when the prize has been moved to the operator and the
  operator's code starts to run: the winning numbers and the winners of draw 2 are
  written, the draw is completed, and fee and prize, together the pool of draw 2, have
  left the balance.
\<close>

definition halfway :: state where
  "halfway = reloaded
     \<lparr>draws := (draws reloaded)(2 := (draws reloaded 2)
        \<lparr>winningMainNumbers := [2, 3, 4, 5, 6], winningLuckyStars := [2, 3],
         winners := [1000], isCompleted := True\<rparr>),
      balance := 30000000000000000,
      paid := (paid reloaded)(1000 := 10000000000000000)\<rparr>"

section \<open>Properties\<close>

subsection \<open>The functions of a transaction\<close>

text \<open>
  The functions as they run in a transaction, written with one another: the equations of
  the source, the nested calls being those of the environment.
\<close>

lemma findWinnersAndDistribute_unfold:
  "findWinnersAndDistribute e dId s =
     (let draw = draws s dId in
      case scanPlayers (players draw) (playerTickets s dId)
             (winningMainNumbers draw) (winningLuckyStars draw)
             (replicate (totalTickets draw) 0) 0 of
        Inl err \<Rightarrow> Inl err
      | Inr (winnersArr, winnerCount) \<Rightarrow>
          (let finalWinners = map (\<lambda>i. winnersArr ! i) [0..<winnerCount];
               s1 = s\<lparr>draws := (draws s)(dId := draw\<lparr>winners := finalWinners, isCompleted := True\<rparr>)\<rparr>
           in
             if winnerCount > 0 then
               (let houseFee = (totalPrizePool draw * HOUSE_FEE_PERCENT) div 100;
                    totalWinnings = totalPrizePool draw - houseFee;
                    prizePerWinner = totalWinnings div winnerCount
                in
                  case send_value (nested e) e (owner s1) houseFee s1 of
                    Inl err \<Rightarrow> Inl err
                  | Inr s2 \<Rightarrow>
                      (case payWinners (nested e) e finalWinners prizePerWinner s2 of
                         Inl err \<Rightarrow> Inl err
                       | Inr s3 \<Rightarrow> startNewDraw e s3))
             else startNewDraw e s1))"
  unfolding findWinnersAndDistribute_def findWinnersAndDistribute_with_def
  by (rule refl)

lemma fulfillRandomWords_unfold:
  "fulfillRandomWords e requestId randomWords s =
     (let dId = vrfRequestIdToDraw s requestId; draw = draws s dId in
      if isCompleted draw then Some (Inr s)
      else
        (case mainNumbers_for 0 randomWords (replicate 51 False) [0, 0, 0, 0, 0] of
           None \<Rightarrow> None
         | Some (Inl err) \<Rightarrow> Some (Inl err)
         | Some (Inr winMain) \<Rightarrow>
        (case luckyStars_for 0 randomWords (replicate 13 False) [0, 0] of
           None \<Rightarrow> None
         | Some (Inl err) \<Rightarrow> Some (Inl err)
         | Some (Inr winStars) \<Rightarrow>
             Some (findWinnersAndDistribute e dId
                     (s\<lparr>draws := (draws s)(dId := draw
                          \<lparr>winningMainNumbers := sortMainNumbers winMain,
                           winningLuckyStars := sortLuckyStars winStars\<rparr>)\<rparr>)))))"
  unfolding fulfillRandomWords_def fulfillRandomWords_with_def findWinnersAndDistribute_def
  by (rule refl)

lemma rawFulfillRandomWords_unfold:
  "rawFulfillRandomWords e requestId randomWords s =
     (if msg_sender e \<noteq> vrfCoordinator s then Some (Inl OnlyCoordinatorCanFulfill)
      else fulfillRandomWords e requestId randomWords s)"
  unfolding rawFulfillRandomWords_def rawFulfillRandomWords_with_def fulfillRandomWords_def
  by (rule refl)

lemma emergencyWithdraw_unfold:
  "emergencyWithdraw e s =
     (if msg_sender e \<noteq> owner s then Inl OwnableCallerIsNotTheOwner
      else if \<not> paused s then Inl PausableNotPaused
      else if \<not> isCompleted (draws s (currentDrawId s)) then Inl ActiveDrawExists
      else send_value (nested e) e (owner s) (balance s) s)"
  unfolding emergencyWithdraw_def emergencyWithdraw_with_def
  by (rule refl)

lemma exec_simps [simp]:
  "exec e (BuyTicket mainNums stars) s = Some (buyTicket e mainNums stars s)"
  "exec e (RequestDrawRandomness reply) s = Some (requestDrawRandomness e reply s)"
  "exec e (RawFulfillRandomWords requestId randomWords) s =
     rawFulfillRandomWords e requestId randomWords s"
  "exec e Pause s = Some (pause e s)"
  "exec e Unpause s = Some (unpause e s)"
  "exec e EmergencyWithdraw s = Some (emergencyWithdraw e s)"
  "exec e (TransferOwnership newOwner) s = Some (transferOwnership e newOwner s)"
  "exec e RenounceOwnership s = Some (renounceOwnership e s)"
  by (simp_all add: exec_def rawFulfillRandomWords_def emergencyWithdraw_def)

text \<open>A transaction runs at the depth its environment gives.\<close>

lemma exec_exec_at: "exec e c s = exec_at (depth e) e c s"
  by (cases "depth e") (simp_all add: exec_def nested_def)

text \<open>A receiver that makes no call leaves the transfer a move of the value.\<close>

lemma send_value_quiet:
  "\<forall>a t. calls_back e a t = [] \<Longrightarrow>
   send_value run e to v s =
     (if v \<le> balance s \<and> accepts e to then
        Inr (s\<lparr>balance := balance s - v, paid := (paid s)(to := paid s to + v)\<rparr>)
      else Inl TransferFailed)"
  by (simp add: send_value_def)

subsection \<open>The rejection loops\<close>

text \<open>
  A rejection loop cannot leave its first round: it returns at once when the number is
  free, and never when it is taken.
\<close>

lemma mainNumber_doWhile_Some:
  assumes "mainNumber_doWhile ws i used = Some y"
  shows "case read ws i of Inl err \<Rightarrow> y = Inl err
         | Inr w \<Rightarrow> \<not> used ! (w mod 50 + 1) \<and> y = Inr (w mod 50 + 1)"
  by (rule mainNumber_doWhile.raw_induct
        [where P = "\<lambda>ws i used y. case read ws i of Inl err \<Rightarrow> y = Inl err
           | Inr w \<Rightarrow> \<not> used ! (w mod 50 + 1) \<and> y = Inr (w mod 50 + 1)", OF _ assms])
     (fastforce split: sum.splits if_splits simp: Let_def)

lemma mainNumber_doWhile_eq:
  "mainNumber_doWhile ws i used =
     (case read ws i of
        Inl err \<Rightarrow> Some (Inl err)
      | Inr w \<Rightarrow> if used ! (w mod 50 + 1) then None else Some (Inr (w mod 50 + 1)))"
proof (cases "mainNumber_doWhile ws i used")
  case None
  then show ?thesis
    by (subst (asm) mainNumber_doWhile.simps) (auto split: sum.splits if_splits simp: Let_def)
next
  case (Some y)
  from mainNumber_doWhile_Some [OF Some] Some show ?thesis
    by (auto split: sum.splits)
qed

lemma luckyStar_doWhile_Some:
  assumes "luckyStar_doWhile ws i used = Some y"
  shows "case read ws (i + 5) of Inl err \<Rightarrow> y = Inl err
         | Inr w \<Rightarrow> \<not> used ! (w mod 12 + 1) \<and> y = Inr (w mod 12 + 1)"
  by (rule luckyStar_doWhile.raw_induct
        [where P = "\<lambda>ws i used y. case read ws (i + 5) of Inl err \<Rightarrow> y = Inl err
           | Inr w \<Rightarrow> \<not> used ! (w mod 12 + 1) \<and> y = Inr (w mod 12 + 1)", OF _ assms])
     (fastforce split: sum.splits if_splits simp: Let_def)

lemma luckyStar_doWhile_eq:
  "luckyStar_doWhile ws i used =
     (case read ws (i + 5) of
        Inl err \<Rightarrow> Some (Inl err)
      | Inr w \<Rightarrow> if used ! (w mod 12 + 1) then None else Some (Inr (w mod 12 + 1)))"
proof (cases "luckyStar_doWhile ws i used")
  case None
  then show ?thesis
    by (subst (asm) luckyStar_doWhile.simps) (auto split: sum.splits if_splits simp: Let_def)
next
  case (Some y)
  from luckyStar_doWhile_Some [OF Some] Some show ?thesis
    by (auto split: sum.splits)
qed

subsection \<open>Evaluating the sample run\<close>

lemmas sample_defs =
  sales_def genesis_def constructor_def startNewDraw_def checked_add_def SEVEN_DAYS_def
  env_at_def buyTicket_def TICKET_PRICE_def zero_Draw_def Let_def
  validateMainNumbers_def validateMainNumbers_loop.simps read_def
  validateLuckyStars_def validateLuckyStars_loop.simps
  requestDrawRandomness_def rawFulfillRandomWords_unfold fulfillRandomWords_unfold
  mainNumbers_for.simps luckyStars_for.simps mainNumber_doWhile_eq luckyStar_doWhile_eq
  sortMainNumbers_def sortLuckyStars_def swap_if_greater_def upt_rec
  findWinnersAndDistribute_unfold isWinningTicket_def send_value_def HOUSE_FEE_PERCENT_def
  numeral_2_eq_2 [symmetric]

lemma constructor_genesis: "constructor (env_at 1000 0 100) 2000 = Inr genesis"
  by (simp add: sample_defs)

lemma execs_sold: "execs sales genesis = Some sold"
  by (simp add: sold_def sample_defs)

lemma execs_pending:
  "execs [(env_at 1000 0 700000, RequestDrawRandomness (Some 1))] sold = Some pending"
  by (simp add: pending_def sold_def sample_defs)

lemma execs_settled:
  "execs [(env_at 2000 0 700100, RawFulfillRandomWords 1 [1, 2, 3, 4, 5, 1, 2])] pending
     = Some settled"
  by (simp add: settled_def pending_def sold_def sample_defs)

lemma reachable_execs: "reachable s \<Longrightarrow> execs cs s = Some s' \<Longrightarrow> reachable s'"
proof (induction cs arbitrary: s)
  case Nil
  then show ?case by simp
next
  case (Cons ec cs)
  obtain e c where ec: "ec = (e, c)" by (cases ec)
  from Cons.prems(2) obtain s1 where
    s1: "exec e c s = Some (Inr s1)" and rest: "execs cs s1 = Some s'"
    by (auto simp: ec split: option.splits sum.splits)
  from Cons.prems(1) s1 have "reachable s1"
    by (rule reachable_exec)
  then show ?case
    using rest by (rule Cons.IH)
qed

lemma reachable_genesis: "reachable genesis"
  using constructor_genesis by (rule reachable_constructor)

lemma reachable_sold: "reachable sold"
  using reachable_genesis execs_sold by (rule reachable_execs)

lemma reachable_pending: "reachable pending"
  using reachable_sold execs_pending by (rule reachable_execs)

lemma reachable_settled: "reachable settled"
  using reachable_pending execs_settled by (rule reachable_execs)

subsection \<open>Replayed deliveries\<close>

text \<open>
  Claim C6. When the draw that a request id maps to is already completed, the delivery
  returns without an error and leaves the whole storage as it was, whatever words are
  delivered; this holds for the internal callback and for the coordinator's external call.
\<close>

theorem C6_completed_delivery_is_noop:
  assumes "isCompleted (draws s (vrfRequestIdToDraw s requestId))"
  shows "fulfillRandomWords e requestId randomWords s = Some (Inr s) \<and>
         (msg_sender e = vrfCoordinator s \<longrightarrow>
            exec e (RawFulfillRandomWords requestId randomWords) s = Some (Inr s))"
  using assms by (simp add: fulfillRandomWords_unfold rawFulfillRandomWords_unfold)

lemma settled_draw_completed: "isCompleted (draws settled (vrfRequestIdToDraw settled 1))"
  by (simp add: settled_def pending_def sold_def sample_defs)

lemma settled_coordinator: "vrfCoordinator settled = 2000"
  by (simp add: settled_def pending_def sold_def sample_defs)

text \<open>
  Claim C6 at a concrete input: after the settlement of the sample run the coordinator
  delivers other words for request 1 again, and the storage stays as it is.
\<close>

theorem C6_witness:
  "isCompleted (draws settled (vrfRequestIdToDraw settled 1)) \<and>
   fulfillRandomWords (env_at 2000 0 700200) 1 [9, 8, 7, 6, 5, 4, 3] settled = Some (Inr settled) \<and>
   exec (env_at 2000 0 700200) (RawFulfillRandomWords 1 [9, 8, 7, 6, 5, 4, 3]) settled
     = Some (Inr settled)"
  using C6_completed_delivery_is_noop [OF settled_draw_completed,
          of "env_at 2000 0 700200" "[9, 8, 7, 6, 5, 4, 3]"]
        settled_draw_completed settled_coordinator
  by (simp add: env_at_def)

subsection \<open>The number of delivered words\<close>

text \<open>Only the words at the indices 0 to 6 are read.\<close>

lemma read_take: "i < n \<Longrightarrow> n \<le> length ws \<Longrightarrow> read (take n ws) i = read ws i"
  by (simp add: read_def)

lemma mainNumbers_for_take:
  "7 \<le> length ws \<Longrightarrow>
   mainNumbers_for i (take 7 ws) used win = mainNumbers_for i ws used win"
proof (induction i ws used win rule: mainNumbers_for.induct)
  case (1 i ws used win)
  show ?case
  proof (cases "i < 5")
    case False
    then show ?thesis
      by (simp add: mainNumbers_for.simps [of i])
  next
    case True
    then have rd: "read (take 7 ws) i = read ws i"
      using "1.prems" by (simp add: read_take)
    show ?thesis
      using True "1.IH" "1.prems"
      by (subst mainNumbers_for.simps, subst (2) mainNumbers_for.simps)
         (auto simp: mainNumber_doWhile_eq rd split: sum.splits option.splits)
  qed
qed

lemma luckyStars_for_take:
  "7 \<le> length ws \<Longrightarrow>
   luckyStars_for i (take 7 ws) used win = luckyStars_for i ws used win"
proof (induction i ws used win rule: luckyStars_for.induct)
  case (1 i ws used win)
  show ?case
  proof (cases "i < 2")
    case False
    then show ?thesis
      by (simp add: luckyStars_for.simps [of i])
  next
    case True
    then have rd: "read (take 7 ws) (i + 5) = read ws (i + 5)"
      using "1.prems" by (simp add: read_take)
    show ?thesis
      using True "1.IH" "1.prems"
      by (subst luckyStars_for.simps, subst (2) luckyStars_for.simps)
         (auto simp: luckyStar_doWhile_eq rd split: sum.splits option.splits)
  qed
qed

lemma mainNumbers_for_error:
  "mainNumbers_for i ws used win = Some (Inl err) \<Longrightarrow> err = Panic_ArrayOutOfBounds"
proof (induction i ws used win rule: mainNumbers_for.induct)
  case (1 i ws used win)
  from "1.prems" show ?case
    by (subst (asm) mainNumbers_for.simps)
       (auto simp: mainNumber_doWhile_eq read_def dest: "1.IH" split: if_splits sum.splits option.splits)
qed

lemma mainNumbers_for_length:
  "mainNumbers_for i ws used win = Some (Inr r) \<Longrightarrow> i < 5 \<Longrightarrow> 5 \<le> length ws"
proof (induction i ws used win rule: mainNumbers_for.induct)
  case (1 i ws used win)
  show ?case
  proof (cases "i = 4")
    case True
    with "1.prems" show ?thesis
      by (subst (asm) mainNumbers_for.simps)
         (auto simp: mainNumber_doWhile_eq read_def split: if_splits sum.splits option.splits)
  next
    case False
    with "1.prems" show ?thesis
      by (subst (asm) mainNumbers_for.simps)
         (auto simp: mainNumber_doWhile_eq read_def dest!: "1.IH" split: if_splits sum.splits option.splits)
  qed
qed

lemma luckyStars_for_error:
  "luckyStars_for i ws used win = Some (Inl err) \<Longrightarrow> err = Panic_ArrayOutOfBounds"
proof (induction i ws used win rule: luckyStars_for.induct)
  case (1 i ws used win)
  from "1.prems" show ?case
    by (subst (asm) luckyStars_for.simps)
       (auto simp: luckyStar_doWhile_eq read_def dest: "1.IH" split: if_splits sum.splits option.splits)
qed

lemma luckyStars_for_length:
  "luckyStars_for i ws used win = Some (Inr r) \<Longrightarrow> i < 2 \<Longrightarrow> 7 \<le> length ws"
proof (induction i ws used win rule: luckyStars_for.induct)
  case (1 i ws used win)
  show ?case
  proof (cases "i = 1")
    case True
    with "1.prems" show ?thesis
      by (subst (asm) luckyStars_for.simps)
         (auto simp: luckyStar_doWhile_eq read_def split: if_splits sum.splits option.splits)
  next
    case False
    with "1.prems" show ?thesis
      by (subst (asm) luckyStars_for.simps)
         (auto simp: luckyStar_doWhile_eq read_def dest!: "1.IH" split: if_splits sum.splits option.splits)
  qed
qed

lemma mainNumbers_for_no_error:
  "5 \<le> length ws \<Longrightarrow> mainNumbers_for i ws used win \<noteq> Some (Inl err)"
proof (induction i ws used win rule: mainNumbers_for.induct)
  case (1 i ws used win)
  show ?case
  proof (cases "i < 5")
    case False
    then show ?thesis
      by (simp add: mainNumbers_for.simps [of i])
  next
    case True
    with "1.prems" have rd: "read ws i = Inr (ws ! i)"
      by (simp add: read_def)
    show ?thesis
      using True "1.IH" "1.prems"
      by (subst mainNumbers_for.simps) (simp add: mainNumber_doWhile_eq rd)
  qed
qed

lemma luckyStars_for_no_error:
  "7 \<le> length ws \<Longrightarrow> luckyStars_for i ws used win \<noteq> Some (Inl err)"
proof (induction i ws used win rule: luckyStars_for.induct)
  case (1 i ws used win)
  show ?case
  proof (cases "i < 2")
    case False
    then show ?thesis
      by (simp add: luckyStars_for.simps [of i])
  next
    case True
    with "1.prems" have rd: "read ws (i + 5) = Inr (ws ! (i + 5))"
      by (simp add: read_def)
    show ?thesis
      using True "1.IH" "1.prems"
      by (subst luckyStars_for.simps) (simp add: luckyStar_doWhile_eq rd)
  qed
qed

text \<open>
  Claim C2, as the code has it. The delivery does not count the words, and the contract
  has no error for a wrong count. With seven or more words the call does exactly what it
  does on the first seven: the words after the seventh are ignored, and the two loops that
  derive the picks end in no error. With fewer than seven words for a draw that is not
  completed the call never succeeds: it either ends in the array index panic where the
  first missing word is read, or does not return because a rejection loop before that
  point does not exit.
\<close>

theorem C2_word_count_is_not_checked:
  "(7 \<le> length randomWords \<longrightarrow>
      fulfillRandomWords e requestId randomWords s
        = fulfillRandomWords e requestId (take 7 randomWords) s) \<and>
   (7 \<le> length randomWords \<longrightarrow>
      mainNumbers_for 0 randomWords (replicate 51 False) [0, 0, 0, 0, 0] \<noteq> Some (Inl err) \<and>
      luckyStars_for 0 randomWords (replicate 13 False) [0, 0] \<noteq> Some (Inl err)) \<and>
   (length randomWords < 7 \<and> \<not> isCompleted (draws s (vrfRequestIdToDraw s requestId)) \<longrightarrow>
      fulfillRandomWords e requestId randomWords s = None \<or>
      fulfillRandomWords e requestId randomWords s = Some (Inl Panic_ArrayOutOfBounds))"
proof (intro conjI impI)
  assume h: "7 \<le> length randomWords"
  show "fulfillRandomWords e requestId randomWords s
        = fulfillRandomWords e requestId (take 7 randomWords) s"
    unfolding fulfillRandomWords_unfold mainNumbers_for_take [OF h] luckyStars_for_take [OF h]
    by (rule refl)
next
  assume h: "7 \<le> length randomWords"
  then show "mainNumbers_for 0 randomWords (replicate 51 False) [0, 0, 0, 0, 0] \<noteq> Some (Inl err)"
    by (intro mainNumbers_for_no_error) simp
  from h show "luckyStars_for 0 randomWords (replicate 13 False) [0, 0] \<noteq> Some (Inl err)"
    by (rule luckyStars_for_no_error)
next
  assume a: "length randomWords < 7 \<and> \<not> isCompleted (draws s (vrfRequestIdToDraw s requestId))"
  show "fulfillRandomWords e requestId randomWords s = None \<or>
      fulfillRandomWords e requestId randomWords s = Some (Inl Panic_ArrayOutOfBounds)"
  proof (cases "mainNumbers_for 0 randomWords (replicate 51 False) [0, 0, 0, 0, 0]")
    case None
    with a show ?thesis by (simp add: fulfillRandomWords_unfold)
  next
    case (Some r)
    show ?thesis
    proof (cases r)
      case (Inl err)
      with Some mainNumbers_for_error have "err = Panic_ArrayOutOfBounds" by blast
      with a Some Inl show ?thesis by (simp add: fulfillRandomWords_unfold)
    next
      case (Inr winMain)
      show ?thesis
      proof (cases "luckyStars_for 0 randomWords (replicate 13 False) [0, 0]")
        case None
        with a Some Inr show ?thesis by (simp add: fulfillRandomWords_unfold)
      next
        case (Some r')
        note S2 = this
        show ?thesis
        proof (cases r')
          case (Inl err)
          with S2 luckyStars_for_error have "err = Panic_ArrayOutOfBounds" by blast
          with a \<open>mainNumbers_for 0 randomWords (replicate 51 False) [0, 0, 0, 0, 0] = Some r\<close> Inr S2 Inl
          show ?thesis by (simp add: fulfillRandomWords_unfold)
        next
          case (Inr winStars)
          with S2 have "7 \<le> length randomWords"
            using luckyStars_for_length [of 0 randomWords "replicate 13 False" "[0, 0]" winStars]
            by simp
          with a show ?thesis by simp
        qed
      qed
    qed
  qed
qed

text \<open>
  Claim C2 at a concrete input: for the pending draw of the sample run, eight words are
  accepted and six words end in the index panic.
\<close>

theorem C2_witness:
  "fulfillRandomWords (env_at 2000 0 700100) 1 [1, 2, 3, 4, 5, 1, 2, 99] pending
      = fulfillRandomWords (env_at 2000 0 700100) 1 [1, 2, 3, 4, 5, 1, 2] pending \<and>
   fulfillRandomWords (env_at 2000 0 700100) 1 [1, 2, 3, 4, 5, 1] pending
      = Some (Inl Panic_ArrayOutOfBounds)"
proof -
  have p: "\<not> isCompleted (draws pending (vrfRequestIdToDraw pending 1))"
    by (simp add: pending_def sold_def sample_defs)
  have n: "fulfillRandomWords (env_at 2000 0 700100) 1 [1, 2, 3, 4, 5, 1] pending \<noteq> None"
    by (simp add: pending_def sold_def sample_defs)
  have a: "fulfillRandomWords (env_at 2000 0 700100) 1 [1, 2, 3, 4, 5, 1, 2, 99] pending
      = fulfillRandomWords (env_at 2000 0 700100) 1 (take 7 [1, 2, 3, 4, 5, 1, 2, 99]) pending"
    using C2_word_count_is_not_checked
      [of "[1, 2, 3, 4, 5, 1, 2, 99]" "env_at 2000 0 700100" 1 pending]
    by simp
  have b: "fulfillRandomWords (env_at 2000 0 700100) 1 [1, 2, 3, 4, 5, 1] pending = None \<or>
      fulfillRandomWords (env_at 2000 0 700100) 1 [1, 2, 3, 4, 5, 1] pending
        = Some (Inl Panic_ArrayOutOfBounds)"
    using C2_word_count_is_not_checked
      [of "[1, 2, 3, 4, 5, 1]" "env_at 2000 0 700100" 1 pending] p
    by simp
  from a b n show ?thesis
    by auto
qed

text \<open>
  Claim C2 as stated fails: a delivery of eight words for the pending draw of the sample
  run raises no error and settles the draw.
\<close>

theorem C2_counterexample:
  "length [1, 2, 3, 4, 5, 1, 2, 99 :: nat] \<noteq> NUM_WORDS \<and>
   \<not> isCompleted (draws pending (vrfRequestIdToDraw pending 1)) \<and>
   fulfillRandomWords (env_at 2000 0 700100) 1 [1, 2, 3, 4, 5, 1, 2, 99] pending = Some (Inr settled)"
  by (simp add: NUM_WORDS_def settled_def pending_def sold_def sample_defs)

subsection \<open>Sorting the picks\<close>

text \<open>
  One pass of the bubble sort over the first cells of a five-element array moves their
  maximum to the last of them and keeps the elements; four passes sort the array.
\<close>

lemma pass4:
  "\<exists>a' b' c' d' e'.
     fold (\<lambda>j ns'. swap_if_greater ns' j) [0..<4] [a, b, c, d, e] = [a', b', c', d', e'] \<and>
     a' \<le> e' \<and> b' \<le> e' \<and> c' \<le> e' \<and> d' \<le> e' \<and>
     mset [a', b', c', d', e'] = mset [a, b, c, d, e]"
  by (simp add: swap_if_greater_def upt_rec Let_def)

lemma pass3:
  "\<exists>a' b' c' d'.
     fold (\<lambda>j ns'. swap_if_greater ns' j) [0..<3] [a, b, c, d, e] = [a', b', c', d', e] \<and>
     a' \<le> d' \<and> b' \<le> d' \<and> c' \<le> d' \<and>
     mset [a', b', c', d'] = mset [a, b, c, d]"
  by (simp add: swap_if_greater_def upt_rec Let_def)

lemma pass2:
  "\<exists>a' b' c'.
     fold (\<lambda>j ns'. swap_if_greater ns' j) [0..<2] [a, b, c, d, e] = [a', b', c', d, e] \<and>
     a' \<le> c' \<and> b' \<le> c' \<and>
     mset [a', b', c'] = mset [a, b, c]"
  by (simp add: swap_if_greater_def upt_rec Let_def)

lemma pass1:
  "\<exists>a' b'.
     fold (\<lambda>j ns'. swap_if_greater ns' j) [0..<1] [a, b, c, d, e] = [a', b', c, d, e] \<and>
     a' \<le> b' \<and> mset [a', b'] = mset [a, b]"
  by (simp add: swap_if_greater_def upt_rec Let_def)

lemma list5: "length xs = 5 \<Longrightarrow> \<exists>a b c d e. xs = [a, b, c, d, e]"
  by (auto simp: length_Suc_conv eval_nat_numeral)

lemma list2: "length xs = 2 \<Longrightarrow> \<exists>a b. xs = [a, b]"
  by (auto simp: length_Suc_conv eval_nat_numeral)

lemma upt4: "[0..<4] = [0, 1, 2, 3]"
  by (simp add: upt_rec)

lemma sortMainNumbers_passes:
  "sortMainNumbers xs =
     fold (\<lambda>j ns'. swap_if_greater ns' j) [0..<1]
       (fold (\<lambda>j ns'. swap_if_greater ns' j) [0..<2]
         (fold (\<lambda>j ns'. swap_if_greater ns' j) [0..<3]
           (fold (\<lambda>j ns'. swap_if_greater ns' j) [0..<4] xs)))"
  unfolding sortMainNumbers_def upt4 by (simp add: upt_rec numeral_2_eq_2 numeral_3_eq_3)

lemma sortMainNumbers_sorts:
  assumes "length xs = 5"
  shows "sorted (sortMainNumbers xs) \<and> mset (sortMainNumbers xs) = mset xs"
proof -
  from list5 [OF assms] obtain a b c d e where xs: "xs = [a, b, c, d, e]"
    by blast
  from pass4 [of a b c d e] obtain a1 b1 c1 d1 e1 where
    p4: "fold (\<lambda>j ns'. swap_if_greater ns' j) [0..<4] [a, b, c, d, e] = [a1, b1, c1, d1, e1]"
    and o4: "a1 \<le> e1" "b1 \<le> e1" "c1 \<le> e1" "d1 \<le> e1"
    and m4: "mset [a1, b1, c1, d1, e1] = mset [a, b, c, d, e]"
    by blast
  from pass3 [of a1 b1 c1 d1 e1] obtain a2 b2 c2 d2 where
    p3: "fold (\<lambda>j ns'. swap_if_greater ns' j) [0..<3] [a1, b1, c1, d1, e1] = [a2, b2, c2, d2, e1]"
    and o3: "a2 \<le> d2" "b2 \<le> d2" "c2 \<le> d2"
    and m3: "mset [a2, b2, c2, d2] = mset [a1, b1, c1, d1]"
    by blast
  from pass2 [of a2 b2 c2 d2 e1] obtain a3 b3 c3 where
    p2: "fold (\<lambda>j ns'. swap_if_greater ns' j) [0..<2] [a2, b2, c2, d2, e1] = [a3, b3, c3, d2, e1]"
    and o2: "a3 \<le> c3" "b3 \<le> c3"
    and m2: "mset [a3, b3, c3] = mset [a2, b2, c2]"
    by blast
  from pass1 [of a3 b3 c3 d2 e1] obtain a4 b4 where
    p1: "fold (\<lambda>j ns'. swap_if_greater ns' j) [0..<1] [a3, b3, c3, d2, e1] = [a4, b4, c3, d2, e1]"
    and o1: "a4 \<le> b4"
    and m1: "mset [a4, b4] = mset [a3, b3]"
    by blast
  have res: "sortMainNumbers [a, b, c, d, e] = [a4, b4, c3, d2, e1]"
    unfolding sortMainNumbers_passes p4 p3 p2 p1 by (rule refl)
  from m3 have "set [a2, b2, c2, d2] = set [a1, b1, c1, d1]"
    by (rule mset_eq_setD)
  with o4 have le4: "a2 \<le> e1" "b2 \<le> e1" "c2 \<le> e1" "d2 \<le> e1"
    by auto
  from m2 have "set [a3, b3, c3] = set [a2, b2, c2]"
    by (rule mset_eq_setD)
  with o3 have le3: "a3 \<le> d2" "b3 \<le> d2" "c3 \<le> d2"
    by auto
  from m1 have "set [a4, b4] = set [a3, b3]"
    by (rule mset_eq_setD)
  with o2 have le2: "a4 \<le> c3" "b4 \<le> c3"
    by auto
  from o1 le2 le3 le4 have "sorted [a4, b4, c3, d2, e1]"
    by auto
  moreover have "mset [a4, b4, c3, d2, e1] = mset [a, b, c, d, e]"
  proof -
    have "mset [a4, b4, c3, d2, e1] = mset [a4, b4] + {#c3, d2, e1#}"
      by simp
    also have "\<dots> = mset [a3, b3, c3] + {#d2, e1#}"
      using m1 by simp
    also have "\<dots> = mset [a2, b2, c2, d2] + {#e1#}"
      using m2 by simp
    also have "\<dots> = mset [a1, b1, c1, d1, e1]"
      using m3 by simp
    finally have "mset [a4, b4, c3, d2, e1] = mset [a1, b1, c1, d1, e1]" .
    then show ?thesis
      using m4 by (rule trans)
  qed
  ultimately show ?thesis
    unfolding xs res by (rule conjI)
qed

lemma sortLuckyStars_sorts:
  assumes "length xs = 2"
  shows "sorted (sortLuckyStars xs) \<and> mset (sortLuckyStars xs) = mset xs"
proof -
  from list2 [OF assms] obtain a b where "xs = [a, b]"
    by blast
  then show ?thesis
    by (simp add: sortLuckyStars_def Let_def)
qed


subsection \<open>Termination of the resolution\<close>

text \<open>
  Once a number is marked as used, the loop for a later word that gives the same number
  does not exit. So a delivery for a draw that is not completed does not return when two
  of its first five words agree modulo 50.
\<close>

lemma mainNumbers_for_marked:
  "k \<le> j \<Longrightarrow> j < 5 \<Longrightarrow> 5 \<le> length ws \<Longrightarrow> length used = 51 \<Longrightarrow>
   used ! (ws ! j mod 50 + 1) \<Longrightarrow> mainNumbers_for k ws used win = None"
proof (induction k ws used win rule: mainNumbers_for.induct)
  case (1 k ws used win)
  from "1.prems" have k: "k < 5" and rd: "read ws k = Inr (ws ! k)"
    by (simp_all add: read_def)
  show ?case
  proof (cases "used ! (ws ! k mod 50 + 1)")
    case True
    with k rd show ?thesis
      by (subst mainNumbers_for.simps) (simp add: mainNumber_doWhile_eq)
  next
    case False
    with "1.prems" have "k \<noteq> j" by auto
    with "1.prems" have kj: "k + 1 \<le> j" by simp
    have mark: "used[ws ! k mod 50 + 1 := True] ! (ws ! j mod 50 + 1)"
      using "1.prems" by (simp add: nth_list_update)
    have "mainNumbers_for (k + 1) ws (used[ws ! k mod 50 + 1 := True]) (win[k := ws ! k mod 50 + 1])
            = None"
      using "1.IH" [of "Inr (ws ! k mod 50 + 1)" "ws ! k mod 50 + 1"] k rd False kj "1.prems" mark
      by (simp add: mainNumber_doWhile_eq)
    with k rd False show ?thesis
      by (subst mainNumbers_for.simps) (simp add: mainNumber_doWhile_eq)
  qed
qed

lemma mainNumbers_for_repeated:
  "k \<le> i \<Longrightarrow> i < j \<Longrightarrow> j < 5 \<Longrightarrow> 5 \<le> length ws \<Longrightarrow> length used = 51 \<Longrightarrow>
   ws ! i mod 50 = ws ! j mod 50 \<Longrightarrow> mainNumbers_for k ws used win = None"
proof (induction k ws used win rule: mainNumbers_for.induct)
  case (1 k ws used win)
  from "1.prems" have k: "k < 5" and rd: "read ws k = Inr (ws ! k)"
    by (simp_all add: read_def)
  show ?case
  proof (cases "used ! (ws ! k mod 50 + 1)")
    case True
    with k rd show ?thesis
      by (subst mainNumbers_for.simps) (simp add: mainNumber_doWhile_eq)
  next
    case False
    have "mainNumbers_for (k + 1) ws (used[ws ! k mod 50 + 1 := True]) (win[k := ws ! k mod 50 + 1])
            = None"
    proof (cases "k = i")
      case True
      with "1.prems" have "used[ws ! k mod 50 + 1 := True] ! (ws ! j mod 50 + 1)"
        by (simp add: nth_list_update)
      with True "1.prems" show ?thesis
        by (intro mainNumbers_for_marked [where j = j]) simp_all
    next
      case False
      with "1.prems" have "k + 1 \<le> i" by simp
      then show ?thesis
        using "1.IH" [of "Inr (ws ! k mod 50 + 1)" "ws ! k mod 50 + 1"] k rd
              \<open>\<not> used ! (ws ! k mod 50 + 1)\<close> "1.prems"
        by (simp add: mainNumber_doWhile_eq)
    qed
    with k rd False show ?thesis
      by (subst mainNumbers_for.simps) (simp add: mainNumber_doWhile_eq)
  qed
qed

lemma fulfillRandomWords_repeated_main:
  assumes "\<not> isCompleted (draws s (vrfRequestIdToDraw s requestId))"
    and "i < j" and "j < 5" and "5 \<le> length randomWords"
    and "randomWords ! i mod 50 = randomWords ! j mod 50"
  shows "fulfillRandomWords e requestId randomWords s = None"
proof -
  have "mainNumbers_for 0 randomWords (replicate 51 False) [0, 0, 0, 0, 0] = None"
    using assms by (intro mainNumbers_for_repeated [where i = i and j = j]) simp_all
  with assms(1) show ?thesis
    by (simp add: fulfillRandomWords_unfold)
qed

text \<open>
  When the numbers of the remaining words are free and differ from one another, every
  loop exits in its first round.
\<close>

lemma mainNumbers_for_fresh:
  "5 \<le> length ws \<Longrightarrow> length used = 51 \<Longrightarrow> length win = 5 \<Longrightarrow>
   (\<forall>j. i \<le> j \<and> j < 5 \<longrightarrow> \<not> used ! (ws ! j mod 50 + 1)) \<Longrightarrow>
   distinct (map (\<lambda>w. w mod 50) (drop i (take 5 ws))) \<Longrightarrow>
   mainNumbers_for i ws used win =
     Some (Inr (take i win @ map (\<lambda>w. w mod 50 + 1) (drop i (take 5 ws))))"
proof (induction i ws used win rule: mainNumbers_for.induct)
  case (1 i ws used win)
  show ?case
  proof (cases "i < 5")
    case False
    with "1.prems" show ?thesis
      by (subst mainNumbers_for.simps) simp
  next
    case True
    let ?n = "ws ! i mod 50 + 1"
    from True "1.prems" have rd: "read ws i = Inr (ws ! i)"
      by (simp add: read_def)
    from True "1.prems" have free: "\<not> used ! ?n"
      by simp
    have "drop i (take 5 ws) = take 5 ws ! i # drop (Suc i) (take 5 ws)"
      using True "1.prems" by (intro Cons_nth_drop_Suc [symmetric]) simp
    with True have dr: "drop i (take 5 ws) = ws ! i # drop (i + 1) (take 5 ws)"
      by simp
    have fresh: "\<forall>j. i + 1 \<le> j \<and> j < 5 \<longrightarrow> \<not> used[?n := True] ! (ws ! j mod 50 + 1)"
    proof (intro allI impI)
      fix j
      assume j: "i + 1 \<le> j \<and> j < 5"
      with "1.prems" have "ws ! j \<in> set (drop (i + 1) (take 5 ws))"
        by (auto simp: in_set_conv_nth intro!: exI [of _ "j - (i + 1)"])
      with "1.prems"(5) have "ws ! j mod 50 \<noteq> ws ! i mod 50"
        by (force simp: dr image_iff)
      moreover from j "1.prems" have "\<not> used ! (ws ! j mod 50 + 1)"
        by simp
      ultimately show "\<not> used[?n := True] ! (ws ! j mod 50 + 1)"
        using "1.prems" by (simp add: nth_list_update)
    qed
    have "mainNumbers_for (i + 1) ws (used[?n := True]) (win[i := ?n]) =
            Some (Inr (take (i + 1) (win[i := ?n])
                        @ map (\<lambda>w. w mod 50 + 1) (drop (i + 1) (take 5 ws))))"
      using "1.IH" [of "Inr ?n" ?n] True rd free fresh "1.prems"
      by (simp add: mainNumber_doWhile_eq dr)
    moreover have "take (i + 1) (win[i := ?n]) = take i win @ [?n]"
      using True "1.prems" by (simp add: take_Suc_conv_app_nth)
    ultimately show ?thesis
      using True rd free
      by (subst mainNumbers_for.simps) (simp add: mainNumber_doWhile_eq dr)
  qed
qed

lemma distinct_residues_repeat:
  fixes ws :: "uint256 list"
  assumes "\<not> distinct (map (\<lambda>w. w mod 50) (take 5 ws))" and "5 \<le> length ws"
  shows "\<exists>i j. i < j \<and> j < 5 \<and> ws ! i mod 50 = ws ! j mod 50"
proof -
  from assms obtain i j where
    "i < length (take 5 ws)" "j < length (take 5 ws)" "i \<noteq> j"
    "map (\<lambda>w. w mod 50) (take 5 ws) ! i = map (\<lambda>w. w mod 50) (take 5 ws) ! j"
    by (auto simp: distinct_conv_nth)
  with assms(2) have ij: "i < 5" "j < 5" "i \<noteq> j" "ws ! i mod 50 = ws ! j mod 50"
    by simp_all
  show ?thesis
  proof (cases "i < j")
    case True
    with ij show ?thesis by blast
  next
    case False
    with ij have "j < i" by simp
    with ij show ?thesis by metis
  qed
qed

text \<open>
  The five main numbers are derived exactly when the first five words differ modulo 50;
  otherwise the loops do not return.
\<close>

lemma mainNumbers_for_eq:
  assumes "5 \<le> length ws"
  shows "mainNumbers_for 0 ws (replicate 51 False) [0, 0, 0, 0, 0] =
           (if distinct (map (\<lambda>w. w mod 50) (take 5 ws))
            then Some (Inr (map (\<lambda>w. w mod 50 + 1) (take 5 ws)))
            else None)"
proof (cases "distinct (map (\<lambda>w. w mod 50) (take 5 ws))")
  case True
  have "\<forall>j. 0 \<le> j \<and> j < 5 \<longrightarrow> \<not> replicate 51 False ! (ws ! j mod 50 + 1)"
    by simp
  with mainNumbers_for_fresh [of ws "replicate 51 False" "[0, 0, 0, 0, 0]" 0] assms True
  show ?thesis
    by simp
next
  case False
  from distinct_residues_repeat [OF False assms] obtain i j where
    "i < j" "j < 5" "ws ! i mod 50 = ws ! j mod 50"
    by blast
  with assms have "mainNumbers_for 0 ws (replicate 51 False) [0, 0, 0, 0, 0] = None"
    by (intro mainNumbers_for_repeated [where i = i and j = j]) simp_all
  with False show ?thesis
    by simp
qed

lemma luckyStars_for_eq:
  assumes "7 \<le> length ws"
  shows "luckyStars_for 0 ws (replicate 13 False) [0, 0] =
           (if ws ! 5 mod 12 \<noteq> ws ! 6 mod 12
            then Some (Inr [ws ! 5 mod 12 + 1, ws ! 6 mod 12 + 1])
            else None)"
  using assms
  by (simp add: luckyStars_for.simps [of 0] luckyStars_for.simps [of "Suc 0"]
        luckyStars_for.simps [of "Suc (Suc 0)"] luckyStar_doWhile_eq read_def nth_list_update)


text \<open>
  A delivery of at least seven words for a draw that is not completed returns exactly
  when the first five words differ modulo 50 and the sixth and seventh differ modulo 12;
  it then settles the draw against the sorted picks.
\<close>

lemma fulfillRandomWords_eq:
  assumes "\<not> isCompleted (draws s (vrfRequestIdToDraw s requestId))" and "7 \<le> length ws"
  shows "fulfillRandomWords e requestId ws s =
           (if distinct (map (\<lambda>w. w mod 50) (take 5 ws)) \<and> ws ! 5 mod 12 \<noteq> ws ! 6 mod 12
            then Some (findWinnersAndDistribute e (vrfRequestIdToDraw s requestId)
                   (s\<lparr>draws := (draws s)(vrfRequestIdToDraw s requestId :=
                        (draws s (vrfRequestIdToDraw s requestId))
                          \<lparr>winningMainNumbers :=
                             sortMainNumbers (map (\<lambda>w. w mod 50 + 1) (take 5 ws)),
                           winningLuckyStars :=
                             sortLuckyStars [ws ! 5 mod 12 + 1, ws ! 6 mod 12 + 1]\<rparr>)\<rparr>))
            else None)"
proof -
  from assms(2) have "5 \<le> length ws"
    by simp
  note m = mainNumbers_for_eq [OF this] and l = luckyStars_for_eq [OF assms(2)]
  from assms(1) show ?thesis
    unfolding fulfillRandomWords_unfold Let_def m l
    by simp
qed

text \<open>The picks of a delivery that returns: five and two distinct values in range, ascending.\<close>

lemma winning_main_pick:
  assumes "5 \<le> length ws" and "distinct (map (\<lambda>w. w mod 50) (take 5 ws))"
  defines "winMain \<equiv> sortMainNumbers (map (\<lambda>w. w mod 50 + 1) (take 5 ws))"
  shows "length winMain = 5 \<and> distinct winMain \<and> sorted winMain \<and>
         (\<forall>n \<in> set winMain. 1 \<le> n \<and> n \<le> 50)"
proof -
  let ?ns = "map (\<lambda>w. w mod 50 + 1) (take 5 ws)"
  from assms(1) have len: "length ?ns = 5"
    by simp
  have "?ns = map Suc (map (\<lambda>w. w mod 50) (take 5 ws))"
    by simp
  with assms(2) have dist: "distinct ?ns"
    by (simp only: distinct_map) (auto simp: distinct_map)
  have rng: "\<forall>n \<in> set ?ns. 1 \<le> n \<and> n \<le> 50"
    by auto
  from sortMainNumbers_sorts [OF len] have
    srt: "sorted winMain" and ms: "mset winMain = mset ?ns"
    by (simp_all add: winMain_def)
  from ms have "length winMain = length ?ns" "set winMain = set ?ns"
    "distinct winMain = distinct ?ns"
    by (rule mset_eq_length, rule mset_eq_setD, rule mset_eq_imp_distinct_iff)
  with len dist rng srt show ?thesis
    by simp
qed

lemma winning_star_pick:
  assumes "x mod 12 \<noteq> y mod 12"
  defines "winStars \<equiv> sortLuckyStars [x mod 12 + 1, y mod 12 + 1]"
  shows "length winStars = 2 \<and> distinct winStars \<and> sorted winStars \<and>
         (\<forall>n \<in> set winStars. 1 \<le> n \<and> n \<le> 12)"
  using assms(1) by (auto simp: winStars_def sortLuckyStars_def Let_def)


text \<open>
  Claim C1 fails on the code. Seven words are delivered for the pending draw of the sample
  run, all of them 0. The first main number is 1; for the second word the loop computes 1
  again, finds it used, and computes the same value from the same word in every further
  round: the call does not return, neither as the internal callback nor as the
  coordinator's external call.
\<close>

theorem C1_rejection_loop_never_exits:
  "length [0, 0, 0, 0, 0, 0, 0 :: nat] = NUM_WORDS \<and>
   \<not> isCompleted (draws pending (vrfRequestIdToDraw pending 1)) \<and>
   fulfillRandomWords (env_at 2000 0 700100) 1 [0, 0, 0, 0, 0, 0, 0] pending = None \<and>
   exec (env_at 2000 0 700100) (RawFulfillRandomWords 1 [0, 0, 0, 0, 0, 0, 0]) pending = None"
  by (simp add: NUM_WORDS_def pending_def sold_def sample_defs)


subsection \<open>Pick validation\<close>

text \<open>
  The loop invariant: \<open>used\<close> marks the values seen so far, and the rest of the pick is
  accepted when it is in range, avoids the marked values and has no duplicate.
\<close>

lemma validateMainNumbers_loop_eq:
  "length numbers = 5 \<Longrightarrow> length used = 51 \<Longrightarrow>
   validateMainNumbers_loop i numbers used =
     (if (\<forall>n \<in> set (drop i numbers). 1 \<le> n \<and> n \<le> 50 \<and> \<not> used ! n) \<and> distinct (drop i numbers)
      then Inr () else Inl InvalidMainNumbers)"
proof (induction i numbers used rule: validateMainNumbers_loop.induct)
  case (1 i numbers used)
  show ?case
  proof (cases "i < 5")
    case False
    with "1.prems" show ?thesis
      by (subst validateMainNumbers_loop.simps) simp
  next
    case True
    with "1.prems" have dr: "drop i numbers = numbers ! i # drop (i + 1) numbers"
      by (simp add: Cons_nth_drop_Suc)
    from True "1.prems" have rd: "read numbers i = Inr (numbers ! i)"
      by (simp add: read_def)
    show ?thesis
    proof (cases "numbers ! i < 1 \<or> numbers ! i > 50 \<or> used ! (numbers ! i)")
      case True
      then show ?thesis
        by (subst validateMainNumbers_loop.simps) (auto simp: rd dr \<open>i < 5\<close>)
    next
      case False
      then have ok: "\<not> (numbers ! i < 1 \<or> numbers ! i > 50)" "\<not> used ! (numbers ! i)"
        by auto
      have IH: "validateMainNumbers_loop (i + 1) numbers (used[numbers ! i := True]) =
         (if (\<forall>n \<in> set (drop (i + 1) numbers). 1 \<le> n \<and> n \<le> 50 \<and> \<not> used[numbers ! i := True] ! n)
               \<and> distinct (drop (i + 1) numbers)
          then Inr () else Inl InvalidMainNumbers)"
        using "1.IH" [OF \<open>i < 5\<close> rd ok] "1.prems" by simp
      have upd: "\<And>n. n \<le> 50 \<Longrightarrow> used[numbers ! i := True] ! n = (n = numbers ! i \<or> used ! n)"
        using "1.prems" ok by (auto simp: nth_list_update)
      have "validateMainNumbers_loop i numbers used =
            validateMainNumbers_loop (i + 1) numbers (used[numbers ! i := True])"
        using ok by (subst validateMainNumbers_loop.simps) (simp add: rd \<open>i < 5\<close>)
      also note IH
      finally show ?thesis
        using ok upd by (auto simp: dr)
    qed
  qed
qed

lemma validateLuckyStars_loop_eq:
  "length stars = 2 \<Longrightarrow> length used = 13 \<Longrightarrow>
   validateLuckyStars_loop i stars used =
     (if (\<forall>n \<in> set (drop i stars). 1 \<le> n \<and> n \<le> 12 \<and> \<not> used ! n) \<and> distinct (drop i stars)
      then Inr () else Inl InvalidLuckyStars)"
proof (induction i stars used rule: validateLuckyStars_loop.induct)
  case (1 i stars used)
  show ?case
  proof (cases "i < 2")
    case False
    with "1.prems" show ?thesis
      by (subst validateLuckyStars_loop.simps) simp
  next
    case True
    with "1.prems" have dr: "drop i stars = stars ! i # drop (i + 1) stars"
      by (simp add: Cons_nth_drop_Suc)
    from True "1.prems" have rd: "read stars i = Inr (stars ! i)"
      by (simp add: read_def)
    show ?thesis
    proof (cases "stars ! i < 1 \<or> stars ! i > 12 \<or> used ! (stars ! i)")
      case True
      then show ?thesis
        by (subst validateLuckyStars_loop.simps) (auto simp: rd dr \<open>i < 2\<close>)
    next
      case False
      then have ok: "\<not> (stars ! i < 1 \<or> stars ! i > 12)" "\<not> used ! (stars ! i)"
        by auto
      have IH: "validateLuckyStars_loop (i + 1) stars (used[stars ! i := True]) =
         (if (\<forall>n \<in> set (drop (i + 1) stars). 1 \<le> n \<and> n \<le> 12 \<and> \<not> used[stars ! i := True] ! n)
               \<and> distinct (drop (i + 1) stars)
          then Inr () else Inl InvalidLuckyStars)"
        using "1.IH" [OF \<open>i < 2\<close> rd ok] "1.prems" by simp
      have upd: "\<And>n. n \<le> 12 \<Longrightarrow> used[stars ! i := True] ! n = (n = stars ! i \<or> used ! n)"
        using "1.prems" ok by (auto simp: nth_list_update)
      have "validateLuckyStars_loop i stars used =
            validateLuckyStars_loop (i + 1) stars (used[stars ! i := True])"
        using ok by (subst validateLuckyStars_loop.simps) (simp add: rd \<open>i < 2\<close>)
      also note IH
      finally show ?thesis
        using ok upd by (auto simp: dr)
    qed
  qed
qed

lemma validateMainNumbers_error:
  "validateMainNumbers_loop i numbers used = Inl err \<Longrightarrow>
   err = InvalidMainNumbers \<or> err = Panic_ArrayOutOfBounds"
proof (induction i numbers used rule: validateMainNumbers_loop.induct)
  case (1 i numbers used)
  from "1.prems" show ?case
    by (subst (asm) validateMainNumbers_loop.simps)
       (auto simp: read_def dest: "1.IH" split: if_splits sum.splits)
qed

lemma validateLuckyStars_error:
  "validateLuckyStars_loop i stars used = Inl err \<Longrightarrow>
   err = InvalidLuckyStars \<or> err = Panic_ArrayOutOfBounds"
proof (induction i stars used rule: validateLuckyStars_loop.induct)
  case (1 i stars used)
  from "1.prems" show ?case
    by (subst (asm) validateLuckyStars_loop.simps)
       (auto simp: read_def dest: "1.IH" split: if_splits sum.splits)
qed

text \<open>
  Claim C10. A main pick is a value of the type \<open>uint8[5]\<close>, a list of five entries, and
  a bonus pick a value of \<open>uint8[2]\<close>, a list of two entries: a pick of another length
  is not a value that the function can be given. Every main pick is accepted when all its
  entries are in \<open>[1, 50]\<close> and none repeats, and is rejected with
  \<open>InvalidMainNumbers\<close> otherwise; every bonus pick is accepted when both entries are
  in \<open>[1, 12]\<close> and they differ, and is rejected with \<open>InvalidLuckyStars\<close>
  otherwise.
\<close>

theorem C10_validation_of_fixed_length_picks:
  "(length numbers = 5 \<longrightarrow>
      validateMainNumbers numbers =
        (if (\<forall>n \<in> set numbers. 1 \<le> n \<and> n \<le> 50) \<and> distinct numbers
         then Inr () else Inl InvalidMainNumbers)) \<and>
   (length stars = 2 \<longrightarrow>
      validateLuckyStars stars =
        (if (\<forall>n \<in> set stars. 1 \<le> n \<and> n \<le> 12) \<and> distinct stars
         then Inr () else Inl InvalidLuckyStars))"
proof (intro conjI impI)
  assume len: "length numbers = 5"
  show "validateMainNumbers numbers =
        (if (\<forall>n \<in> set numbers. 1 \<le> n \<and> n \<le> 50) \<and> distinct numbers
         then Inr () else Inl InvalidMainNumbers)"
    unfolding validateMainNumbers_def
    by (subst validateMainNumbers_loop_eq [OF len]) auto
next
  assume len: "length stars = 2"
  show "validateLuckyStars stars =
        (if (\<forall>n \<in> set stars. 1 \<le> n \<and> n \<le> 12) \<and> distinct stars
         then Inr () else Inl InvalidLuckyStars)"
    unfolding validateLuckyStars_def
    by (subst validateLuckyStars_loop_eq [OF len]) auto
qed

text \<open>
  Claim C10 at concrete picks: a valid pick, a value out of range and a duplicate, for the
  main numbers and for the lucky stars.
\<close>

theorem C10_witness:
  "validateMainNumbers [6, 5, 4, 3, 2] = Inr () \<and>
   validateMainNumbers [6, 5, 4, 3, 51] = Inl InvalidMainNumbers \<and>
   validateMainNumbers [6, 5, 6, 3, 2] = Inl InvalidMainNumbers \<and>
   validateLuckyStars [12, 1] = Inr () \<and>
   validateLuckyStars [0, 1] = Inl InvalidLuckyStars \<and>
   validateLuckyStars [7, 7] = Inl InvalidLuckyStars"
  using C10_validation_of_fixed_length_picks [of "[6, 5, 4, 3, 2]" "[12, 1]"]
        C10_validation_of_fixed_length_picks [of "[6, 5, 4, 3, 51]" "[0, 1]"]
        C10_validation_of_fixed_length_picks [of "[6, 5, 6, 3, 2]" "[7, 7]"]
  by simp

subsection \<open>Settlement\<close>

text \<open>
  The winner scan copies into the first \<open>winnerCount\<close> cells of the array the holder of
  every winning ticket, in the order of the scan.
\<close>

lemma map_nth_upt_take: "n \<le> length xs \<Longrightarrow> map (\<lambda>i. xs ! i) [0..<n] = take n xs"
  by (rule nth_equalityI) auto

lemma scanTickets_Inr:
  "scanTickets ts pl wm ws W c = Inr (W', c') \<Longrightarrow> c \<le> length W \<Longrightarrow>
   length W' = length W \<and> c' \<le> length W \<and>
   take c' W' = take c W @ map (\<lambda>t. pl) (filter (\<lambda>t. isWinningTicket t wm ws) ts)"
proof (induction ts arbitrary: W c)
  case Nil
  then show ?case by simp
next
  case (Cons t ts)
  show ?case
  proof (cases "isWinningTicket t wm ws")
    case False
    with Cons.prems Cons.IH [of W c] show ?thesis by simp
  next
    case True
    with Cons.prems have lt: "c < length W"
      by (auto split: if_splits)
    with True Cons.prems have
      "scanTickets ts pl wm ws (W[c := pl]) (c + 1) = Inr (W', c')"
      by simp
    from Cons.IH [OF this] lt have
      "length W' = length W \<and> c' \<le> length W \<and>
       take c' W' = take (c + 1) (W[c := pl]) @ map (\<lambda>t. pl) (filter (\<lambda>t. isWinningTicket t wm ws) ts)"
      by simp
    moreover have "take (c + 1) (W[c := pl]) = take c W @ [pl]"
      using lt by (simp add: take_Suc_conv_app_nth)
    ultimately show ?thesis
      using True by simp
  qed
qed

lemma scanPlayers_Inr:
  "scanPlayers pls tk wm ws W c = Inr (W', c') \<Longrightarrow> c \<le> length W \<Longrightarrow>
   length W' = length W \<and> c' \<le> length W \<and>
   take c' W' = take c W @
     concat (map (\<lambda>pl. map (\<lambda>t. pl) (filter (\<lambda>t. isWinningTicket t wm ws) (tk pl))) pls)"
proof (induction pls arbitrary: W c)
  case Nil
  then show ?case by simp
next
  case (Cons pl pls)
  from Cons.prems(1) obtain W1 c1 where
    one: "scanTickets (tk pl) pl wm ws W c = Inr (W1, c1)" and
    rest: "scanPlayers pls tk wm ws W1 c1 = Inr (W', c')"
    by (auto split: sum.splits)
  from scanTickets_Inr [OF one Cons.prems(2)] have
    f1: "length W1 = length W" "c1 \<le> length W"
        "take c1 W1 = take c W @ map (\<lambda>t. pl) (filter (\<lambda>t. isWinningTicket t wm ws) (tk pl))"
    by simp_all
  from Cons.IH [OF rest] f1 show ?case
    by simp
qed

lemma scanPlayers_count:
  "scanPlayers pls tk wm ws W c = Inr (W', c') \<Longrightarrow> c \<le> length W \<Longrightarrow>
   c' = c + length (concat (map (\<lambda>pl. map (\<lambda>t. pl) (filter (\<lambda>t. isWinningTicket t wm ws) (tk pl))) pls))"
proof -
  assume a: "scanPlayers pls tk wm ws W c = Inr (W', c')" "c \<le> length W"
  from scanPlayers_Inr [OF a] have
    "length W' = length W" "c' \<le> length W"
    "take c' W' = take c W @
     concat (map (\<lambda>pl. map (\<lambda>t. pl) (filter (\<lambda>t. isWinningTicket t wm ws) (tk pl))) pls)"
    by simp_all
  then have "length (take c' W') = length (take c W) +
     length (concat (map (\<lambda>pl. map (\<lambda>t. pl) (filter (\<lambda>t. isWinningTicket t wm ws) (tk pl))) pls))"
    by simp
  with \<open>length W' = length W\<close> \<open>c' \<le> length W\<close> a(2) show ?thesis
    by simp
qed

lemma scan_winnerList:
  assumes "scanPlayers (players (draws s dId)) (playerTickets s dId)
             (winningMainNumbers (draws s dId)) (winningLuckyStars (draws s dId))
             (replicate (totalTickets (draws s dId)) 0) 0 = Inr (W, c)"
  shows "map (\<lambda>i. W ! i) [0..<c] = winnerList s dId" and "c = length (winnerList s dId)"
proof -
  from scanPlayers_Inr [OF assms] have
    f: "length W = totalTickets (draws s dId)" "c \<le> totalTickets (draws s dId)"
       "take c W = winnerList s dId"
    by (simp_all add: winnerList_def winningTickets_def)
  then show "map (\<lambda>i. W ! i) [0..<c] = winnerList s dId"
    by (simp add: map_nth_upt_take)
  from scanPlayers_count [OF assms] show "c = length (winnerList s dId)"
    by (simp add: winnerList_def winningTickets_def)
qed

lemma scanTickets_none:
  "\<forall>t \<in> set ts. \<not> isWinningTicket t wm ws \<Longrightarrow> scanTickets ts pl wm ws W c = Inr (W, c)"
  by (induction ts) auto

lemma scanPlayers_none:
  "\<forall>pl \<in> set pls. \<forall>t \<in> set (tk pl). \<not> isWinningTicket t wm ws \<Longrightarrow>
   scanPlayers pls tk wm ws W c = Inr (W, c)"
  by (induction pls) (auto simp: scanTickets_none)

lemma send_value_Inr:
  "\<forall>a t. calls_back e a t = [] \<Longrightarrow> send_value run e to v s = Inr s' \<Longrightarrow>
   s' = s\<lparr>balance := balance s - v, paid := (paid s)(to := paid s to + v)\<rparr> \<and> v \<le> balance s"
  by (auto simp: send_value_quiet split: if_splits)

lemma payWinners_Inr:
  "\<forall>a t. calls_back e a t = [] \<Longrightarrow> payWinners run e ws prize s = Inr s' \<Longrightarrow>
   draws s' = draws s \<and> currentDrawId s' = currentDrawId s \<and>
   playerTickets s' = playerTickets s \<and> vrfRequestIdToDraw s' = vrfRequestIdToDraw s \<and>
   vrfCoordinator s' = vrfCoordinator s \<and> owner s' = owner s \<and> paused s' = paused s \<and>
   balance s' + length ws * prize = balance s \<and>
   (\<forall>a. paid s' a = paid s a + count_list ws a * prize)"
proof (induction ws arbitrary: s)
  case Nil
  then show ?case by simp
next
  case (Cons w ws)
  from Cons.prems obtain s1 where
    one: "send_value run e w prize s = Inr s1" and rest: "payWinners run e ws prize s1 = Inr s'"
    by (auto split: sum.splits)
  from send_value_Inr [OF Cons.prems(1) one] Cons.IH [OF Cons.prems(1) rest] show ?case
    by auto
qed

lemma startNewDraw_Inr:
  "startNewDraw e s = Inr s' \<Longrightarrow>
   s' = s\<lparr>currentDrawId := currentDrawId s + 1,
          draws := (draws s)(currentDrawId s + 1 := (draws s (currentDrawId s + 1))
            \<lparr>drawId := currentDrawId s + 1,
             drawStartTime := block_timestamp e,
             drawEndTime := block_timestamp e + SEVEN_DAYS,
             totalPrizePool := 0,
             totalTickets := 0,
             isCompleted := False,
             randomnessRequested := False\<rparr>)\<rparr>"
  by (auto simp: startNewDraw_def checked_add_def split: if_splits)

lemma startNewDraw_succeeds:
  "currentDrawId s + 1 < 2 ^ 256 \<Longrightarrow> block_timestamp e + SEVEN_DAYS < 2 ^ 256 \<Longrightarrow>
   \<exists>s'. startNewDraw e s = Inr s'"
  by (simp add: startNewDraw_def checked_add_def)

text \<open>What a successful settlement leaves when no receiver calls back.\<close>

lemma findWinnersAndDistribute_Inr:
  assumes ok: "findWinnersAndDistribute e dId s = Inr s'"
    and quiet: "\<forall>a t. calls_back e a t = []"
  defines "wl \<equiv> winnerList s dId"
  defines "p \<equiv> totalPrizePool (draws s dId)"
  defines "fee \<equiv> (if wl = [] then 0 else p * HOUSE_FEE_PERCENT div 100)"
  defines "prize \<equiv> (if wl = [] then 0 else (p - p * HOUSE_FEE_PERCENT div 100) div length wl)"
  defines "ds1 \<equiv> (draws s)(dId := (draws s dId)\<lparr>winners := wl, isCompleted := True\<rparr>)"
  defines "n \<equiv> currentDrawId s + 1"
  shows "draws s' = ds1(n := (ds1 n)
            \<lparr>drawId := n,
             drawStartTime := block_timestamp e,
             drawEndTime := block_timestamp e + SEVEN_DAYS,
             totalPrizePool := 0,
             totalTickets := 0,
             isCompleted := False,
             randomnessRequested := False\<rparr>) \<and>
         currentDrawId s' = n \<and>
         playerTickets s' = playerTickets s \<and>
         vrfRequestIdToDraw s' = vrfRequestIdToDraw s \<and>
         vrfCoordinator s' = vrfCoordinator s \<and>
         owner s' = owner s \<and>
         paused s' = paused s \<and>
         balance s' + fee + length wl * prize = balance s \<and>
         (\<forall>a. paid s' a = paid s a + (if a = owner s then fee else 0) + count_list wl a * prize)"
proof -
  from ok obtain W c where
    scan: "scanPlayers (players (draws s dId)) (playerTickets s dId)
             (winningMainNumbers (draws s dId)) (winningLuckyStars (draws s dId))
             (replicate (totalTickets (draws s dId)) 0) 0 = Inr (W, c)"
    by (auto simp: findWinnersAndDistribute_unfold Let_def split: sum.splits)
  note wlf = scan_winnerList [OF scan]
  define s1 where "s1 = s\<lparr>draws := ds1\<rparr>"
  show ?thesis
  proof (cases "c > 0")
    case False
    then have e: "wl = []" using wlf by (simp add: wl_def)
    from False ok scan wlf have "startNewDraw e s1 = Inr s'"
      by (simp add: findWinnersAndDistribute_unfold Let_def s1_def ds1_def wl_def)
    from startNewDraw_Inr [OF this] show ?thesis
      by (simp add: s1_def n_def e fee_def prize_def)
  next
    case True
    then have ne: "wl \<noteq> []" using wlf by (auto simp: wl_def)
    from True ok scan wlf obtain s2 s3 where
      fee: "send_value (nested e) e (owner s) fee s1 = Inr s2" and
      pay: "payWinners (nested e) e wl prize s2 = Inr s3" and
      new: "startNewDraw e s3 = Inr s'"
      by (auto simp: findWinnersAndDistribute_unfold Let_def s1_def ds1_def wl_def fee_def
            prize_def p_def split: sum.splits)
    from send_value_Inr [OF quiet fee] payWinners_Inr [OF quiet pay] startNewDraw_Inr [OF new]
    show ?thesis
      by (auto simp: s1_def n_def)
  qed
qed

lemma scanTickets_succeeds:
  "c + length (filter (\<lambda>t. isWinningTicket t wm ws) ts) \<le> length W \<Longrightarrow>
   \<exists>W'. scanTickets ts pl wm ws W c
          = Inr (W', c + length (filter (\<lambda>t. isWinningTicket t wm ws) ts)) \<and>
        length W' = length W"
proof (induction ts arbitrary: W c)
  case Nil
  then show ?case by simp
next
  case (Cons t ts)
  show ?case
  proof (cases "isWinningTicket t wm ws")
    case False
    with Cons.prems Cons.IH [of c W] show ?thesis by simp
  next
    case True
    with Cons.prems have "c + 1 + length (filter (\<lambda>t. isWinningTicket t wm ws) ts)
                            \<le> length (W[c := pl])"
      by simp
    from Cons.IH [OF this] True Cons.prems show ?thesis
      by auto
  qed
qed

lemma scanPlayers_succeeds:
  "c + length (concat (map (\<lambda>pl. filter (\<lambda>t. isWinningTicket t wm ws) (tk pl)) pls)) \<le> length W \<Longrightarrow>
   \<exists>W' c'. scanPlayers pls tk wm ws W c = Inr (W', c')"
proof (induction pls arbitrary: W c)
  case Nil
  then show ?case by simp
next
  case (Cons pl pls)
  let ?n = "length (filter (\<lambda>t. isWinningTicket t wm ws) (tk pl))"
  from Cons.prems have "c + ?n \<le> length W"
    by simp
  from scanTickets_succeeds [OF this] obtain W1 where
    one: "scanTickets (tk pl) pl wm ws W c = Inr (W1, c + ?n)" and len: "length W1 = length W"
    by blast
  from Cons.prems len have
    "c + ?n + length (concat (map (\<lambda>pl. filter (\<lambda>t. isWinningTicket t wm ws) (tk pl)) pls))
       \<le> length W1"
    by simp
  from Cons.IH [OF this] one show ?case
    by simp
qed

lemma payWinners_succeeds:
  "\<forall>a t. calls_back e a t = [] \<Longrightarrow>
   \<forall>w \<in> set ws. accepts e w \<Longrightarrow> length ws * prize \<le> balance s \<Longrightarrow>
   \<exists>s'. payWinners run e ws prize s = Inr s'"
proof (induction ws arbitrary: s)
  case Nil
  then show ?case by simp
next
  case (Cons w ws)
  let ?s1 = "s\<lparr>balance := balance s - prize, paid := (paid s)(w := paid s w + prize)\<rparr>"
  from Cons.prems have one: "send_value run e w prize s = Inr ?s1"
    by (simp add: send_value_quiet)
  from Cons.prems have "length ws * prize \<le> balance ?s1"
    by simp
  with Cons.IH [of ?s1] Cons.prems(1,2) one show ?case
    by simp
qed

lemma length_winnerList:
  "length (winnerList s dId) =
   length (concat (map (\<lambda>pl. filter (\<lambda>t. isWinningTicket t (winningMainNumbers (draws s dId))
       (winningLuckyStars (draws s dId))) (playerTickets s dId pl)) (players (draws s dId))))"
  by (simp add: winnerList_def winningTickets_def length_concat comp_def)

text \<open>
  When every ticket record is counted, the owner and the winners accept ether and do not
  call back, the balance covers the pool and the rollover does not overflow, the
  settlement succeeds.
\<close>

lemma findWinnersAndDistribute_succeeds:
  assumes fit: "length (winnerList s dId) \<le> totalTickets (draws s dId)"
    and quiet: "\<forall>a t. calls_back e a t = []"
    and owner: "accepts e (owner s)"
    and winners: "\<forall>w \<in> set (winnerList s dId). accepts e w"
    and funds: "totalPrizePool (draws s dId) \<le> balance s"
    and ids: "currentDrawId s + 1 < 2 ^ 256"
    and time: "block_timestamp e + SEVEN_DAYS < 2 ^ 256"
  shows "\<exists>s'. findWinnersAndDistribute e dId s = Inr s'"
proof -
  let ?d = "draws s dId"
  let ?wl = "winnerList s dId"
  let ?p = "totalPrizePool ?d"
  let ?fee = "?p * HOUSE_FEE_PERCENT div 100"
  let ?prize = "(?p - ?fee) div length ?wl"
  from fit have "0 + length (concat (map (\<lambda>pl. filter (\<lambda>t. isWinningTicket t (winningMainNumbers ?d)
       (winningLuckyStars ?d)) (playerTickets s dId pl)) (players ?d)))
       \<le> length (replicate (totalTickets ?d) (0 :: address))"
    by (simp add: length_winnerList)
  from scanPlayers_succeeds [OF this] obtain W c where
    scan: "scanPlayers (players ?d) (playerTickets s dId) (winningMainNumbers ?d)
             (winningLuckyStars ?d) (replicate (totalTickets ?d) 0) 0 = Inr (W, c)"
    by blast
  note wlf = scan_winnerList [OF scan]
  let ?s1 = "s\<lparr>draws := (draws s)(dId := ?d\<lparr>winners := ?wl, isCompleted := True\<rparr>)\<rparr>"
  show ?thesis
  proof (cases "c > 0")
    case False
    from ids time obtain s' where "startNewDraw e ?s1 = Inr s'"
      using startNewDraw_succeeds [of ?s1 e] by auto
    with False scan wlf show ?thesis
      by (simp add: findWinnersAndDistribute_unfold)
  next
    case True
    have "?fee \<le> ?p"
      by (simp add: HOUSE_FEE_PERCENT_def)
    moreover have "length ?wl * ?prize \<le> ?p - ?fee"
      by (simp add: mult.commute)
    ultimately have split: "?fee + length ?wl * ?prize \<le> balance s"
      using funds by linarith
    let ?s2 = "?s1\<lparr>balance := balance ?s1 - ?fee,
                   paid := (paid ?s1)(owner s := paid ?s1 (owner s) + ?fee)\<rparr>"
    from split owner quiet have fee: "send_value (nested e) e (owner ?s1) ?fee ?s1 = Inr ?s2"
      by (simp add: send_value_quiet)
    from split have "length ?wl * ?prize \<le> balance ?s2"
      by simp
    from payWinners_succeeds [OF quiet winners this] obtain s3 where
      pay: "payWinners (nested e) e ?wl ?prize ?s2 = Inr s3"
      by blast
    from payWinners_Inr [OF quiet pay] have "currentDrawId s3 = currentDrawId s"
      by simp
    with ids time obtain s' where new: "startNewDraw e s3 = Inr s'"
      using startNewDraw_succeeds [of s3 e] by auto
    from True scan wlf fee pay new show ?thesis
      by (simp add: findWinnersAndDistribute_unfold Let_def)
  qed
qed

lemma count_list_replicate_map:
  "count_list (map (\<lambda>t. pl) ts) a = (if pl = a then length ts else 0)"
  by (induction ts) auto

lemma count_list_concat_distinct:
  "distinct pls \<Longrightarrow>
   count_list (concat (map (\<lambda>pl. map (\<lambda>t. pl) (f pl)) pls)) a =
     (if a \<in> set pls then length (f a) else 0)"
  by (induction pls) (auto simp: count_list_replicate_map)

lemma winnerList_empty:
  "winnerList s dId = [] \<Longrightarrow>
   \<forall>pl \<in> set (players (draws s dId)). \<forall>t \<in> set (playerTickets s dId pl).
     \<not> isWinningTicket t (winningMainNumbers (draws s dId)) (winningLuckyStars (draws s dId))"
  by (auto simp: winnerList_def winningTickets_def filter_empty_conv)


subsection \<open>Properties kept by every call\<close>

lemma buyTicket_Inr:
  assumes "buyTicket e mainNums stars s = Inr s'"
  shows "s' = s\<lparr>playerTickets := (playerTickets s)(currentDrawId s := (playerTickets s (currentDrawId s))
                      (msg_sender e := playerTickets s (currentDrawId s) (msg_sender e) @
                         [\<lparr>mainNumbers = mainNums, luckyStars = stars, player = msg_sender e,
                           timestamp = block_timestamp e\<rparr>])),
                draws := (draws s)(currentDrawId s := (draws s (currentDrawId s))
                      \<lparr>players := (if ticketCounts (draws s (currentDrawId s)) (msg_sender e) = 0
                                   then players (draws s (currentDrawId s)) @ [msg_sender e]
                                   else players (draws s (currentDrawId s))),
                       ticketCounts := (ticketCounts (draws s (currentDrawId s)))
                          (msg_sender e := ticketCounts (draws s (currentDrawId s)) (msg_sender e) + 1),
                       totalTickets := totalTickets (draws s (currentDrawId s)) + 1,
                       totalPrizePool := totalPrizePool (draws s (currentDrawId s)) + TICKET_PRICE\<rparr>),
                balance := balance s + TICKET_PRICE\<rparr>"
  using assms
  by (auto simp: buyTicket_def Let_def checked_add_def split: sum.splits if_splits)

lemma requestDrawRandomness_Inr:
  assumes "requestDrawRandomness e reply s = Inr s'"
  shows "\<exists>requestId. s' = s\<lparr>draws := (draws s)(currentDrawId s :=
                  (draws s (currentDrawId s))\<lparr>randomnessRequested := True\<rparr>),
                vrfRequestIdToDraw := (vrfRequestIdToDraw s)(requestId := currentDrawId s)\<rparr>"
  using assms
  by (auto simp: requestDrawRandomness_def Let_def split: option.splits if_splits)

text \<open>
  A stable property that the nested calls keep is kept by the functions that send ether,
  and so by every call at every depth of nesting.
\<close>

lemma stableI:
  assumes "\<And>s v to. I s \<Longrightarrow> v \<le> balance s \<Longrightarrow>
             I (s\<lparr>balance := balance s - v, paid := (paid s)(to := paid s to + v)\<rparr>)"
    and "\<And>s d winMain winStars. I s \<Longrightarrow> \<not> isCompleted (draws s d) \<Longrightarrow>
           I (s\<lparr>draws := (draws s)(d := (draws s d)
             \<lparr>winningMainNumbers := winMain, winningLuckyStars := winStars\<rparr>)\<rparr>)"
    and "\<And>s d ws. I s \<Longrightarrow> \<not> isCompleted (draws s d) \<Longrightarrow>
           I (s\<lparr>draws := (draws s)(d := (draws s d)\<lparr>winners := ws, isCompleted := True\<rparr>)\<rparr>)"
    and "\<And>e s s'. I s \<Longrightarrow> startNewDraw e s = Inr s' \<Longrightarrow> I s'"
    and "\<And>e mainNums stars s s'. I s \<Longrightarrow> buyTicket e mainNums stars s = Inr s' \<Longrightarrow> I s'"
    and "\<And>e reply s s'. I s \<Longrightarrow> requestDrawRandomness e reply s = Inr s' \<Longrightarrow> I s'"
    and "\<And>s b. I s \<Longrightarrow> I (s\<lparr>paused := b\<rparr>)"
    and "\<And>s a. I s \<Longrightarrow> I (s\<lparr>owner := a\<rparr>)"
  shows "stable I"
  unfolding stable_def by (intro conjI allI impI; (rule assms; assumption))

lemma stableD:
  assumes "stable I" and "I s"
  shows "v \<le> balance s \<Longrightarrow>
           I (s\<lparr>balance := balance s - v, paid := (paid s)(to := paid s to + v)\<rparr>)"
    and "\<not> isCompleted (draws s d) \<Longrightarrow>
           I (s\<lparr>draws := (draws s)(d := (draws s d)
             \<lparr>winningMainNumbers := winMain, winningLuckyStars := winStars\<rparr>)\<rparr>)"
    and "\<not> isCompleted (draws s d) \<Longrightarrow>
           I (s\<lparr>draws := (draws s)(d := (draws s d)\<lparr>winners := ws, isCompleted := True\<rparr>)\<rparr>)"
    and "startNewDraw e s = Inr s' \<Longrightarrow> I s'"
    and "buyTicket e mainNums stars s = Inr s' \<Longrightarrow> I s'"
    and "requestDrawRandomness e reply s = Inr s' \<Longrightarrow> I s'"
    and "I (s\<lparr>paused := b\<rparr>)"
    and "I (s\<lparr>owner := a\<rparr>)"
  using assms unfolding stable_def by (elim conjE, fast)+

lemma preservedD: "preserved I run \<Longrightarrow> I s \<Longrightarrow> run e c s = Some (Inr s') \<Longrightarrow> I s'"
  unfolding preserved_def by blast

lemma run_calls_preserved:
  "preserved I run \<Longrightarrow> I s \<Longrightarrow> I (run_calls run e a cs s)"
proof (induction cs arbitrary: s)
  case Nil
  then show ?case by simp
next
  case (Cons vc cs)
  obtain v c where vc: "vc = (v, c)" by (cases vc)
  show ?case
  proof (cases "run (e\<lparr>msg_sender := a, msg_value := v\<rparr>) c s")
    case None
    with Cons show ?thesis by (simp add: vc)
  next
    case (Some r)
    show ?thesis
    proof (cases r)
      case (Inl err)
      with Some Cons show ?thesis by (simp add: vc)
    next
      case (Inr s1)
      with Some have "run (e\<lparr>msg_sender := a, msg_value := v\<rparr>) c s = Some (Inr s1)"
        by simp
      with Cons.prems have "I s1"
        by (rule preservedD)
      with Cons.prems(1) have "I (run_calls run e a cs s1)"
        by (rule Cons.IH)
      with Some Inr show ?thesis by (simp add: vc)
    qed
  qed
qed

lemma send_value_preserved:
  assumes st: "stable I" and run: "preserved I run" and I: "I s"
    and ok: "send_value run e to v s = Inr s'"
  shows "I s'"
proof -
  let ?s1 = "s\<lparr>balance := balance s - v, paid := (paid s)(to := paid s to + v)\<rparr>"
  from ok have v: "v \<le> balance s" and s': "s' = run_calls run e to (calls_back e to ?s1) ?s1"
    by (auto simp: send_value_def Let_def split: if_splits)
  from st I v have "I ?s1"
    by (rule stableD(1))
  with run show ?thesis
    unfolding s' by (rule run_calls_preserved)
qed

lemma payWinners_preserved:
  "stable I \<Longrightarrow> preserved I run \<Longrightarrow> I s \<Longrightarrow> payWinners run e ws prize s = Inr s' \<Longrightarrow> I s'"
proof (induction ws arbitrary: s)
  case Nil
  then show ?case by simp
next
  case (Cons w ws)
  from Cons.prems(4) obtain s1 where
    one: "send_value run e w prize s = Inr s1" and rest: "payWinners run e ws prize s1 = Inr s'"
    by (auto split: sum.splits)
  from Cons.prems(1,2,3) one have "I s1"
    by (rule send_value_preserved)
  with Cons.prems(1,2) show ?case
    using rest by (rule Cons.IH)
qed

text \<open>The steps of a successful settlement.\<close>

lemma findWinnersAndDistribute_with_Inr:
  assumes "findWinnersAndDistribute_with run e dId s = Inr s'"
  obtains (none) ws where
      "startNewDraw e
         (s\<lparr>draws := (draws s)(dId := (draws s dId)\<lparr>winners := ws, isCompleted := True\<rparr>)\<rparr>)
       = Inr s'"
  | (some) ws fee prize s2 s3 where
      "send_value run e (owner s) fee
         (s\<lparr>draws := (draws s)(dId := (draws s dId)\<lparr>winners := ws, isCompleted := True\<rparr>)\<rparr>)
       = Inr s2"
      "payWinners run e ws prize s2 = Inr s3"
      "startNewDraw e s3 = Inr s'"
  using assms
  by (auto simp: findWinnersAndDistribute_with_def Let_def split: sum.splits if_splits)

lemma findWinnersAndDistribute_preserved:
  assumes st: "stable I" and run: "preserved I run" and I: "I s"
    and "open": "\<not> isCompleted (draws s dId)"
    and ok: "findWinnersAndDistribute_with run e dId s = Inr s'"
  shows "I s'"
  using ok
proof (cases rule: findWinnersAndDistribute_with_Inr)
  case (none ws)
  from st I "open" have
    "I (s\<lparr>draws := (draws s)(dId := (draws s dId)\<lparr>winners := ws, isCompleted := True\<rparr>)\<rparr>)"
    by (rule stableD(3))
  with st show ?thesis
    using none by (rule stableD(4))
next
  case (some ws fee prize s2 s3)
  from st I "open" have
    "I (s\<lparr>draws := (draws s)(dId := (draws s dId)\<lparr>winners := ws, isCompleted := True\<rparr>)\<rparr>)"
    by (rule stableD(3))
  with st run have "I s2"
    using some(1) by (rule send_value_preserved)
  with st run have "I s3"
    using some(2) by (rule payWinners_preserved)
  with st show ?thesis
    using some(3) by (rule stableD(4))
qed

lemma fulfillRandomWords_with_Inr:
  assumes "fulfillRandomWords_with run e requestId randomWords s = Some (Inr s')"
  shows "(isCompleted (draws s (vrfRequestIdToDraw s requestId)) \<and> s' = s) \<or>
         (\<not> isCompleted (draws s (vrfRequestIdToDraw s requestId)) \<and>
          (\<exists>winMain winStars.
             findWinnersAndDistribute_with run e (vrfRequestIdToDraw s requestId)
               (s\<lparr>draws := (draws s)(vrfRequestIdToDraw s requestId :=
                    (draws s (vrfRequestIdToDraw s requestId))
                      \<lparr>winningMainNumbers := winMain, winningLuckyStars := winStars\<rparr>)\<rparr>)
             = Inr s'))"
  using assms
  by (auto simp: fulfillRandomWords_with_def Let_def split: option.splits sum.splits if_splits)

lemma fulfillRandomWords_preserved:
  assumes st: "stable I" and run: "preserved I run" and I: "I s"
    and ok: "fulfillRandomWords_with run e requestId randomWords s = Some (Inr s')"
  shows "I s'"
proof -
  let ?d = "vrfRequestIdToDraw s requestId"
  from fulfillRandomWords_with_Inr [OF ok] show ?thesis
  proof (elim disjE conjE exE)
    assume "s' = s"
    with I show ?thesis by simp
  next
    fix winMain winStars
    let ?s0 = "s\<lparr>draws := (draws s)(?d := (draws s ?d)
                   \<lparr>winningMainNumbers := winMain, winningLuckyStars := winStars\<rparr>)\<rparr>"
    assume "open": "\<not> isCompleted (draws s ?d)"
      and settle: "findWinnersAndDistribute_with run e ?d ?s0 = Inr s'"
    from st I "open" have "I ?s0"
      by (rule stableD(2))
    moreover from "open" have "\<not> isCompleted (draws ?s0 ?d)"
      by simp
    ultimately show ?thesis
      using st run settle by (intro findWinnersAndDistribute_preserved [of I run ?s0 ?d e s'])
  qed
qed

lemma step_preserved:
  assumes st: "stable I" and run: "preserved I run"
  shows "preserved I (step run)"
  unfolding preserved_def
proof (intro allI impI)
  fix e c s s'
  assume I: "I s" and ok: "step run e c s = Some (Inr s')"
  show "I s'"
  proof (cases c)
    case (BuyTicket mainNums stars)
    with ok have "buyTicket e mainNums stars s = Inr s'" by simp
    with st I show ?thesis by (rule stableD(5))
  next
    case (RequestDrawRandomness reply)
    with ok have "requestDrawRandomness e reply s = Inr s'" by simp
    with st I show ?thesis by (rule stableD(6))
  next
    case (RawFulfillRandomWords requestId randomWords)
    with ok have "fulfillRandomWords_with run e requestId randomWords s = Some (Inr s')"
      by (auto simp: rawFulfillRandomWords_with_def split: if_splits)
    with st run I show ?thesis by (rule fulfillRandomWords_preserved)
  next
    case Pause
    with ok have "s' = s\<lparr>paused := True\<rparr>"
      by (auto simp: pause_def split: if_splits)
    with stableD(7) [OF st I] show ?thesis by simp
  next
    case Unpause
    with ok have "s' = s\<lparr>paused := False\<rparr>"
      by (auto simp: unpause_def split: if_splits)
    with stableD(7) [OF st I] show ?thesis by simp
  next
    case EmergencyWithdraw
    with ok have "send_value run e (owner s) (balance s) s = Inr s'"
      by (auto simp: emergencyWithdraw_with_def split: if_splits)
    with st run I show ?thesis by (rule send_value_preserved)
  next
    case (TransferOwnership newOwner)
    with ok have "s' = s\<lparr>owner := newOwner\<rparr>"
      by (auto simp: transferOwnership_def split: if_splits)
    with stableD(8) [OF st I] show ?thesis by simp
  next
    case RenounceOwnership
    with ok have "s' = s\<lparr>owner := 0\<rparr>"
      by (auto simp: renounceOwnership_def split: if_splits)
    with stableD(8) [OF st I] show ?thesis by simp
  qed
qed

lemma no_calls_preserved: "preserved I no_calls"
  by (simp add: preserved_def no_calls_def)

lemma exec_at_preserved: "stable I \<Longrightarrow> preserved I (exec_at d)"
proof (induction d)
  case 0
  from this no_calls_preserved show ?case
    unfolding exec_at.simps by (rule step_preserved)
next
  case (Suc d)
  from Suc.prems Suc.IH [OF Suc.prems] show ?case
    unfolding exec_at.simps by (rule step_preserved)
qed

lemma nested_preserved: "stable I \<Longrightarrow> preserved I (nested e)"
  by (simp add: nested_def no_calls_preserved exec_at_preserved split: nat.splits)

lemma exec_preserved:
  assumes "stable I" and "I s" and "exec e c s = Some (Inr s')"
  shows "I s'"
proof -
  from assms(1) nested_preserved [OF assms(1)] have "preserved I (step (nested e))"
    by (rule step_preserved)
  from this assms(2) assms(3) [unfolded exec_def] show ?thesis
    by (rule preservedD)
qed


subsection \<open>The settlement of a draw\<close>

text \<open>
  A completed draw keeps its winners list, and the amount paid out to an address never
  goes down, whatever calls are made.
\<close>

lemma stable_completed:
  "stable (\<lambda>s. winners (draws s dId) = ws \<and> isCompleted (draws s dId) \<and> dId \<le> currentDrawId s)"
proof (rule stableI)
  fix e :: env and s s' :: state
  assume "winners (draws s dId) = ws \<and> isCompleted (draws s dId) \<and> dId \<le> currentDrawId s"
    and "startNewDraw e s = Inr s'"
  with startNewDraw_Inr [of e s s'] show
    "winners (draws s' dId) = ws \<and> isCompleted (draws s' dId) \<and> dId \<le> currentDrawId s'"
    by auto
next
  fix e :: env and mainNums stars and s s' :: state
  assume "winners (draws s dId) = ws \<and> isCompleted (draws s dId) \<and> dId \<le> currentDrawId s"
    and "buyTicket e mainNums stars s = Inr s'"
  with buyTicket_Inr [of e mainNums stars s s'] show
    "winners (draws s' dId) = ws \<and> isCompleted (draws s' dId) \<and> dId \<le> currentDrawId s'"
    by auto
next
  fix e :: env and reply and s s' :: state
  assume "winners (draws s dId) = ws \<and> isCompleted (draws s dId) \<and> dId \<le> currentDrawId s"
    and "requestDrawRandomness e reply s = Inr s'"
  with requestDrawRandomness_Inr [of e reply s s'] show
    "winners (draws s' dId) = ws \<and> isCompleted (draws s' dId) \<and> dId \<le> currentDrawId s'"
    by auto
qed auto

lemma stable_paid: "stable (\<lambda>s. n \<le> paid s a)"
proof (rule stableI)
  fix e :: env and s s' :: state
  assume "n \<le> paid s a" and "startNewDraw e s = Inr s'"
  with startNewDraw_Inr [of e s s'] show "n \<le> paid s' a"
    by auto
next
  fix e :: env and mainNums stars and s s' :: state
  assume "n \<le> paid s a" and "buyTicket e mainNums stars s = Inr s'"
  with buyTicket_Inr [of e mainNums stars s s'] show "n \<le> paid s' a"
    by auto
next
  fix e :: env and reply and s s' :: state
  assume "n \<le> paid s a" and "requestDrawRandomness e reply s = Inr s'"
  with requestDrawRandomness_Inr [of e reply s s'] show "n \<le> paid s' a"
    by auto
qed auto

lemma send_value_paid:
  assumes "send_value (nested e) e to v s = Inr s'"
  shows "paid s a + (if a = to then v else 0) \<le> paid s' a"
proof -
  let ?s1 = "s\<lparr>balance := balance s - v, paid := (paid s)(to := paid s to + v)\<rparr>"
  from assms have s': "s' = run_calls (nested e) e to (calls_back e to ?s1) ?s1"
    by (auto simp: send_value_def Let_def split: if_splits)
  have "preserved (\<lambda>t. paid ?s1 a \<le> paid t a) (nested e)"
    using stable_paid by (rule nested_preserved)
  then have "paid ?s1 a \<le> paid (run_calls (nested e) e to (calls_back e to ?s1) ?s1) a"
    by (rule run_calls_preserved) simp
  then show ?thesis
    unfolding s' by (simp split: if_splits)
qed

lemma payWinners_paid:
  "payWinners (nested e) e ws prize s = Inr s' \<Longrightarrow>
   paid s a + count_list ws a * prize \<le> paid s' a"
proof (induction ws arbitrary: s)
  case Nil
  then show ?case by simp
next
  case (Cons w ws)
  from Cons.prems obtain s1 where
    one: "send_value (nested e) e w prize s = Inr s1" and
    rest: "payWinners (nested e) e ws prize s1 = Inr s'"
    by (auto split: sum.splits)
  from send_value_paid [OF one, of a] Cons.IH [OF rest] show ?case
    by (auto split: if_splits)
qed

text \<open>The steps of a successful settlement, with the amounts it sends.\<close>

lemma findWinnersAndDistribute_steps:
  assumes ok: "findWinnersAndDistribute e dId s = Inr s'"
  defines "wl \<equiv> winnerList s dId"
  defines "p \<equiv> totalPrizePool (draws s dId)"
  defines "s1 \<equiv> s\<lparr>draws := (draws s)(dId := (draws s dId)\<lparr>winners := wl, isCompleted := True\<rparr>)\<rparr>"
  shows "if wl = [] then startNewDraw e s1 = Inr s'
         else (\<exists>s2 s3.
           send_value (nested e) e (owner s) (p * HOUSE_FEE_PERCENT div 100) s1 = Inr s2 \<and>
           payWinners (nested e) e wl ((p - p * HOUSE_FEE_PERCENT div 100) div length wl) s2 = Inr s3 \<and>
           startNewDraw e s3 = Inr s')"
proof -
  from ok obtain W c where
    scan: "scanPlayers (players (draws s dId)) (playerTickets s dId)
             (winningMainNumbers (draws s dId)) (winningLuckyStars (draws s dId))
             (replicate (totalTickets (draws s dId)) 0) 0 = Inr (W, c)"
    by (auto simp: findWinnersAndDistribute_unfold Let_def split: sum.splits)
  note wlf = scan_winnerList [OF scan]
  show ?thesis
  proof (cases "c > 0")
    case False
    then have e: "wl = []" using wlf by (simp add: wl_def)
    from False ok scan wlf have "startNewDraw e s1 = Inr s'"
      by (simp add: findWinnersAndDistribute_unfold Let_def s1_def wl_def)
    with e show ?thesis
      by simp
  next
    case True
    then have ne: "wl \<noteq> []" using wlf by (auto simp: wl_def)
    from True ok scan wlf have
      "\<exists>s2 s3.
           send_value (nested e) e (owner s) (p * HOUSE_FEE_PERCENT div 100) s1 = Inr s2 \<and>
           payWinners (nested e) e wl ((p - p * HOUSE_FEE_PERCENT div 100) div length wl) s2 = Inr s3 \<and>
           startNewDraw e s3 = Inr s'"
      by (auto simp: findWinnersAndDistribute_unfold Let_def s1_def wl_def p_def
            split: sum.splits)
    with ne show ?thesis
      by simp
  qed
qed

text \<open>
  What a successful settlement leaves whatever the receivers do: the winners list of the
  draw, and at least the fee and the prizes in the amounts paid out.
\<close>

lemma findWinnersAndDistribute_pays:
  assumes ok: "findWinnersAndDistribute e dId s = Inr s'" and exists: "dId \<le> currentDrawId s"
  defines "wl \<equiv> winnerList s dId"
  defines "p \<equiv> totalPrizePool (draws s dId)"
  shows "winners (draws s' dId) = wl \<and> isCompleted (draws s' dId) \<and>
         (wl \<noteq> [] \<longrightarrow>
            paid s a + (if a = owner s then p * HOUSE_FEE_PERCENT div 100 else 0)
              + count_list wl a * ((p - p * HOUSE_FEE_PERCENT div 100) div length wl) \<le> paid s' a)"
proof -
  let ?J = "\<lambda>t. winners (draws t dId) = wl \<and> isCompleted (draws t dId) \<and> dId \<le> currentDrawId t"
  let ?s1 = "s\<lparr>draws := (draws s)(dId := (draws s dId)\<lparr>winners := wl, isCompleted := True\<rparr>)\<rparr>"
  note steps = findWinnersAndDistribute_steps [OF ok, folded wl_def p_def]
  have st: "stable ?J"
    by (rule stable_completed)
  then have run: "preserved ?J (nested e)"
    by (rule nested_preserved)
  from exists have J1: "?J ?s1"
    by simp
  show ?thesis
  proof (cases "wl = []")
    case True
    with steps have "startNewDraw e ?s1 = Inr s'"
      by simp
    with st J1 have "?J s'"
      by (rule stableD(4))
    with True show ?thesis
      by simp
  next
    case False
    with steps obtain s2 s3 where
      fee: "send_value (nested e) e (owner s) (p * HOUSE_FEE_PERCENT div 100) ?s1 = Inr s2" and
      pay: "payWinners (nested e) e wl ((p - p * HOUSE_FEE_PERCENT div 100) div length wl) s2 = Inr s3" and
      new: "startNewDraw e s3 = Inr s'"
      by auto
    from st run J1 fee have "?J s2"
      by (rule send_value_preserved)
    with st run have "?J s3"
      using pay by (rule payWinners_preserved)
    with st have J: "?J s'"
      using new by (rule stableD(4))
    from send_value_paid [OF fee, of a] have
      "paid s a + (if a = owner s then p * HOUSE_FEE_PERCENT div 100 else 0) \<le> paid s2 a"
      by simp
    moreover from payWinners_paid [OF pay, of a] have
      "paid s2 a + count_list wl a * ((p - p * HOUSE_FEE_PERCENT div 100) div length wl) \<le> paid s3 a" .
    moreover from startNewDraw_Inr [OF new] have "paid s' a = paid s3 a"
      by simp
    ultimately have
      "paid s a + (if a = owner s then p * HOUSE_FEE_PERCENT div 100 else 0)
         + count_list wl a * ((p - p * HOUSE_FEE_PERCENT div 100) div length wl) \<le> paid s' a"
      by linarith
    with J show ?thesis
      by simp
  qed
qed

text \<open>The sample run at the moment of settlement.\<close>

lemmas win_defs =
  isWinningTicket_def sortMainNumbers_def sortLuckyStars_def swap_if_greater_def upt_rec Let_def

lemma pending_facts:
  "currentDrawId pending = 1"
  "balance pending = 30000000000000000"
  "totalPrizePool (draws pending 1) = 30000000000000000"
  "players (draws pending 1) = [1001, 1002]"
  "winningMainNumbers (draws pending 1) = [0, 0, 0, 0, 0]"
  "winningLuckyStars (draws pending 1) = [0, 0]"
  "playerTickets pending 1 1001 =
     [\<lparr>mainNumbers = [6, 5, 4, 3, 2], luckyStars = [3, 2], player = 1001, timestamp = 200\<rparr>,
      \<lparr>mainNumbers = [2, 3, 4, 5, 6], luckyStars = [2, 3], player = 1001, timestamp = 300\<rparr>]"
  "playerTickets pending 1 1002 =
     [\<lparr>mainNumbers = [7, 8, 9, 10, 11], luckyStars = [4, 5], player = 1002, timestamp = 400\<rparr>]"
  by (simp_all add: pending_def sold_def sample_defs)

lemma drawn_facts:
  "currentDrawId drawn = 1"
  "owner drawn = 1000"
  "balance drawn = 30000000000000000"
  "paid drawn = (\<lambda>a. 0)"
  "totalPrizePool (draws drawn 1) = 30000000000000000"
  "players (draws drawn 1) = [1001, 1002]"
  "winningMainNumbers (draws drawn 1) = [2, 3, 4, 5, 6]"
  "winningLuckyStars (draws drawn 1) = [2, 3]"
  "playerTickets drawn 1 = playerTickets pending 1"
  by (simp_all add: drawn_def pending_def sold_def sample_defs)

lemma pending_winnerList: "winnerList pending 1 = []"
  unfolding winnerList_def winningTickets_def pending_facts list.map filter.simps
  by (simp add: win_defs)

lemma drawn_winnerList: "winnerList drawn 1 = [1001, 1001]"
  unfolding winnerList_def winningTickets_def drawn_facts pending_facts list.map filter.simps
  by (simp add: win_defs)

lemma drawn_winningTickets: "length (winningTickets drawn 1 1001) = 2"
  unfolding winnerList_def winningTickets_def drawn_facts pending_facts list.map filter.simps
  by (simp add: win_defs)


lemma drawn_settles: "findWinnersAndDistribute (env_at 2000 0 700100) 1 drawn = Inr settled"
  by (simp add: drawn_def settled_def pending_def sold_def sample_defs)

text \<open>
  Claim C5. When no ticket of an existing draw matches its winning numbers and the two
  checked additions of the rollover do not overflow, settlement succeeds, sends nothing
  (the balance and every amount paid out are as before, so the would-be house fee stays
  too), records an empty winners list, sets \<open>isCompleted\<close> and leaves the draw's pool
  figure as it was.
\<close>

theorem C5_settlement_without_winners:
  assumes none: "winnerList s dId = []"
    and exists: "dId \<le> currentDrawId s"
    and ids: "currentDrawId s + 1 < 2 ^ 256"
    and time: "block_timestamp e + SEVEN_DAYS < 2 ^ 256"
  shows "\<exists>s'. findWinnersAndDistribute e dId s = Inr s' \<and>
           balance s' = balance s \<and> paid s' = paid s \<and>
           winners (draws s' dId) = [] \<and> isCompleted (draws s' dId) \<and>
           totalPrizePool (draws s' dId) = totalPrizePool (draws s dId)"
proof -
  let ?d = "draws s dId"
  have scan: "scanPlayers (players ?d) (playerTickets s dId)
             (winningMainNumbers ?d) (winningLuckyStars ?d)
             (replicate (totalTickets ?d) 0) 0 = Inr (replicate (totalTickets ?d) 0, 0)"
    using winnerList_empty [OF none] by (rule scanPlayers_none)
  let ?s1 = "s\<lparr>draws := (draws s)(dId := ?d\<lparr>winners := [], isCompleted := True\<rparr>)\<rparr>"
  from ids time obtain s' where new: "startNewDraw e ?s1 = Inr s'"
    using startNewDraw_succeeds [of ?s1 e] by auto
  from scan new have run: "findWinnersAndDistribute e dId s = Inr s'"
    by (simp add: findWinnersAndDistribute_unfold)
  from startNewDraw_Inr [OF new] exists have
    "balance s' = balance s \<and> paid s' = paid s \<and>
     winners (draws s' dId) = [] \<and> isCompleted (draws s' dId) \<and>
     totalPrizePool (draws s' dId) = totalPrizePool (draws s dId)"
    by simp
  with run show ?thesis
    by blast
qed

text \<open>
  Claim C5 at a concrete input: the draw of the sample run settled against the all-zero
  winning numbers, which no ticket matches; the balance of three ticket prices stays.
\<close>

theorem C5_witness:
  "winnerList pending 1 = [] \<and>
   (\<exists>s'. findWinnersAndDistribute (env_at 2000 0 700100) 1 pending = Inr s' \<and>
      balance s' = 30000000000000000 \<and> paid s' = paid pending \<and>
      winners (draws s' 1) = [] \<and> isCompleted (draws s' 1) \<and>
      totalPrizePool (draws s' 1) = 30000000000000000)"
  using C5_settlement_without_winners [of pending 1 "env_at 2000 0 700100"]
        pending_winnerList pending_facts
  by (simp add: env_at_def SEVEN_DAYS_def)

text \<open>
  Claim C4. When the settlement of an existing draw with pool \<open>p\<close> succeeds and \<open>k > 0\<close>
  tickets win, the winners list names every participant once per winning ticket, and the
  transfers of the settlement are these: the owner is sent \<open>p * 1 div 100\<close>, then
  every entry of the winners list is sent \<open>(p - p * 1 div 100) div k\<close> (so a
  participant is paid once per winning ticket: with the participants recorded once each,
  as many times as they hold winning tickets). Whatever the receivers do, the amounts paid
  out grow by at least these payments. When no receiver calls back into the contract
  these are all the payments, and of the pool exactly the remainder
  \<open>(p - p * 1 div 100) mod k\<close> stays in the balance.
\<close>

theorem C4_settlement_with_winners:
  assumes run: "findWinnersAndDistribute e dId s = Inr s'"
    and k: "k = length (winnerList s dId)"
    and pos: "0 < k"
    and p: "p = totalPrizePool (draws s dId)"
    and exists: "dId \<le> currentDrawId s"
  shows "winners (draws s' dId) = winnerList s dId \<and>
         (\<exists>s2 s3.
            send_value (nested e) e (owner s) (p * 1 div 100)
              (s\<lparr>draws := (draws s)(dId := (draws s dId)
                   \<lparr>winners := winnerList s dId, isCompleted := True\<rparr>)\<rparr>) = Inr s2 \<and>
            payWinners (nested e) e (winnerList s dId) ((p - p * 1 div 100) div k) s2 = Inr s3 \<and>
            startNewDraw e s3 = Inr s') \<and>
         paid s a + (if a = owner s then p * 1 div 100 else 0)
           + count_list (winnerList s dId) a * ((p - p * 1 div 100) div k) \<le> paid s' a \<and>
         ((\<forall>b t. calls_back e b t = []) \<longrightarrow>
            paid s' a = paid s a + (if a = owner s then p * 1 div 100 else 0)
                          + count_list (winnerList s dId) a * ((p - p * 1 div 100) div k) \<and>
            balance s' + p * 1 div 100 + k * ((p - p * 1 div 100) div k) = balance s \<and>
            balance s' + p = balance s + (p - p * 1 div 100) mod k) \<and>
         (distinct (players (draws s dId)) \<longrightarrow>
            count_list (winnerList s dId) a =
              (if a \<in> set (players (draws s dId)) then length (winningTickets s dId a) else 0))"
proof -
  let ?wl = "winnerList s dId"
  let ?fee = "p * 1 div 100"
  let ?prize = "(p - p * 1 div 100) div k"
  from k pos have ne: "?wl \<noteq> []" by auto
  note g = findWinnersAndDistribute_pays [OF run exists, of a]
  from g have w: "winners (draws s' dId) = ?wl"
    by simp
  from findWinnersAndDistribute_steps [OF run] ne k p have
    sends: "\<exists>s2 s3.
            send_value (nested e) e (owner s) ?fee
              (s\<lparr>draws := (draws s)(dId := (draws s dId)
                   \<lparr>winners := ?wl, isCompleted := True\<rparr>)\<rparr>) = Inr s2 \<and>
            payWinners (nested e) e ?wl ?prize s2 = Inr s3 \<and>
            startNewDraw e s3 = Inr s'"
    by (simp add: HOUSE_FEE_PERCENT_def)
  from g ne k p have lower: "paid s a + (if a = owner s then ?fee else 0)
                       + count_list ?wl a * ?prize \<le> paid s' a"
    by (simp add: HOUSE_FEE_PERCENT_def cong: if_cong)
  have quiet: "(\<forall>b t. calls_back e b t = []) \<longrightarrow>
            paid s' a = paid s a + (if a = owner s then ?fee else 0) + count_list ?wl a * ?prize \<and>
            balance s' + ?fee + k * ?prize = balance s \<and>
            balance s' + p = balance s + (p - ?fee) mod k"
  proof
    assume q: "\<forall>b t. calls_back e b t = []"
    note f = findWinnersAndDistribute_Inr [OF run q]
    from f ne k p have pd: "paid s' a = paid s a + (if a = owner s then ?fee else 0)
                       + count_list ?wl a * ?prize"
      by (simp add: HOUSE_FEE_PERCENT_def)
    from f ne k p have bal: "balance s' + ?fee + k * ?prize = balance s"
      by (simp add: HOUSE_FEE_PERCENT_def)
    have "?fee \<le> p" by simp
    moreover have "k * ?prize + (p - ?fee) mod k = p - ?fee"
      by simp
    ultimately have "p = ?fee + k * ?prize + (p - ?fee) mod k"
      by linarith
    with bal have rem: "balance s' + p = balance s + (p - ?fee) mod k"
      by linarith
    from pd bal rem show
      "paid s' a = paid s a + (if a = owner s then ?fee else 0) + count_list ?wl a * ?prize \<and>
       balance s' + ?fee + k * ?prize = balance s \<and>
       balance s' + p = balance s + (p - ?fee) mod k"
      by blast
  qed
  have cnt: "distinct (players (draws s dId)) \<longrightarrow>
            count_list ?wl a =
              (if a \<in> set (players (draws s dId)) then length (winningTickets s dId a) else 0)"
    unfolding winnerList_def by (simp add: count_list_concat_distinct)
  from w sends lower quiet cnt show ?thesis
    by blast
qed

text \<open>
  Claim C4 at a concrete input: the settlement of the sample run. The pool is three ticket
  prices, participant 1001 holds both winning tickets and is paid twice, the owner 1000
  receives one percent, and nothing is left.
\<close>

theorem C4_witness:
  "findWinnersAndDistribute (env_at 2000 0 700100) 1 drawn = Inr settled \<and>
   length (winnerList drawn 1) = 2 \<and>
   winners (draws settled 1) = [1001, 1001] \<and>
   paid settled 1000 = 300000000000000 \<and>
   paid settled 1001 = 2 * 14850000000000000 \<and>
   balance settled = 0 \<and>
   length (winningTickets drawn 1 1001) = 2"
  using C4_settlement_with_winners
          [OF drawn_settles, where k = 2 and p = 30000000000000000 and a = 1000]
        C4_settlement_with_winners
          [OF drawn_settles, where k = 2 and p = 30000000000000000 and a = 1001]
        drawn_settles drawn_winnerList drawn_winningTickets drawn_facts
  by (simp add: env_at_def)

subsection \<open>The sales window\<close>

lemma buyTicket_succeeds_iff:
  "(\<exists>s'. buyTicket e mainNums stars s = Inr s') \<longleftrightarrow>
     drawStartTime (draws s (currentDrawId s)) \<le> block_timestamp e \<and>
     block_timestamp e \<le> drawEndTime (draws s (currentDrawId s)) \<and>
     \<not> paused s \<and> msg_value e = TICKET_PRICE \<and>
     validateMainNumbers mainNums = Inr () \<and> validateLuckyStars stars = Inr () \<and>
     ticketCounts (draws s (currentDrawId s)) (msg_sender e) + 1 < 2 ^ 256 \<and>
     totalTickets (draws s (currentDrawId s)) + 1 < 2 ^ 256 \<and>
     totalPrizePool (draws s (currentDrawId s)) + TICKET_PRICE < 2 ^ 256"
  by (auto simp: buyTicket_def Let_def checked_add_def split: sum.splits if_splits)

lemma buyTicket_DrawNotActive_iff:
  "buyTicket e mainNums stars s = Inl DrawNotActive \<longleftrightarrow>
     block_timestamp e < drawStartTime (draws s (currentDrawId s)) \<or>
     drawEndTime (draws s (currentDrawId s)) < block_timestamp e"
  by (auto simp: buyTicket_def Let_def checked_add_def validateMainNumbers_def
        validateLuckyStars_def
        dest: validateMainNumbers_error validateLuckyStars_error
        split: sum.splits if_splits)

text \<open>
  Claim C8. A purchase fails with \<open>DrawNotActive\<close> exactly when the time is outside
  \<open>[drawStartTime, drawEndTime]\<close> of the current draw; it succeeds exactly when the time
  is inside, the contract is not paused, the payment is the ticket price, both picks are
  valid and no counter overflows. A request for randomness fails whenever the time is not
  after \<open>drawEndTime\<close>, with \<open>DrawNotActive\<close> when the owner makes it. So at the
  instant \<open>drawEndTime\<close> a valid purchase is accepted and a request is rejected.
\<close>

theorem C8_window_boundaries:
  "(buyTicket e mainNums stars s = Inl DrawNotActive \<longleftrightarrow>
      \<not> (drawStartTime (draws s (currentDrawId s)) \<le> block_timestamp e \<and>
         block_timestamp e \<le> drawEndTime (draws s (currentDrawId s)))) \<and>
   ((\<exists>s'. buyTicket e mainNums stars s = Inr s') \<longleftrightarrow>
      drawStartTime (draws s (currentDrawId s)) \<le> block_timestamp e \<and>
      block_timestamp e \<le> drawEndTime (draws s (currentDrawId s)) \<and>
      \<not> paused s \<and> msg_value e = TICKET_PRICE \<and>
      validateMainNumbers mainNums = Inr () \<and> validateLuckyStars stars = Inr () \<and>
      ticketCounts (draws s (currentDrawId s)) (msg_sender e) + 1 < 2 ^ 256 \<and>
      totalTickets (draws s (currentDrawId s)) + 1 < 2 ^ 256 \<and>
      totalPrizePool (draws s (currentDrawId s)) + TICKET_PRICE < 2 ^ 256) \<and>
   (block_timestamp e' \<le> drawEndTime (draws s (currentDrawId s)) \<longrightarrow>
      (\<exists>err. requestDrawRandomness e' reply s = Inl err)) \<and>
   (requestDrawRandomness e' reply s = Inl DrawNotActive \<longleftrightarrow>
      msg_sender e' = owner s \<and> block_timestamp e' \<le> drawEndTime (draws s (currentDrawId s)))"
proof (intro conjI)
  show "buyTicket e mainNums stars s = Inl DrawNotActive \<longleftrightarrow>
      \<not> (drawStartTime (draws s (currentDrawId s)) \<le> block_timestamp e \<and>
         block_timestamp e \<le> drawEndTime (draws s (currentDrawId s)))"
    by (auto simp: buyTicket_DrawNotActive_iff)
  show "(\<exists>s'. buyTicket e mainNums stars s = Inr s') \<longleftrightarrow>
      drawStartTime (draws s (currentDrawId s)) \<le> block_timestamp e \<and>
      block_timestamp e \<le> drawEndTime (draws s (currentDrawId s)) \<and>
      \<not> paused s \<and> msg_value e = TICKET_PRICE \<and>
      validateMainNumbers mainNums = Inr () \<and> validateLuckyStars stars = Inr () \<and>
      ticketCounts (draws s (currentDrawId s)) (msg_sender e) + 1 < 2 ^ 256 \<and>
      totalTickets (draws s (currentDrawId s)) + 1 < 2 ^ 256 \<and>
      totalPrizePool (draws s (currentDrawId s)) + TICKET_PRICE < 2 ^ 256"
    by (rule buyTicket_succeeds_iff)
  show "block_timestamp e' \<le> drawEndTime (draws s (currentDrawId s)) \<longrightarrow>
      (\<exists>err. requestDrawRandomness e' reply s = Inl err)"
    by (simp add: requestDrawRandomness_def Let_def)
  show "requestDrawRandomness e' reply s = Inl DrawNotActive \<longleftrightarrow>
      msg_sender e' = owner s \<and> block_timestamp e' \<le> drawEndTime (draws s (currentDrawId s))"
    by (auto simp: requestDrawRandomness_def Let_def split: if_splits option.splits)
qed

lemma genesis_facts:
  "currentDrawId genesis = 1"
  "drawStartTime (draws genesis 1) = 100"
  "drawEndTime (draws genesis 1) = 604900"
  "owner genesis = 1000"
  "\<not> paused genesis"
  "ticketCounts (draws genesis 1) = (\<lambda>a. 0)"
  "totalTickets (draws genesis 1) = 0"
  "totalPrizePool (draws genesis 1) = 0"
  by (simp_all add: sample_defs)

lemma sample_picks_valid:
  "validateMainNumbers [6, 5, 4, 3, 2] = Inr ()" "validateLuckyStars [3, 2] = Inr ()"
  by (simp_all add: validateMainNumbers_def validateMainNumbers_loop.simps
        validateLuckyStars_def validateLuckyStars_loop.simps read_def)

text \<open>
  Claim C8 at a concrete input: the first draw of the sample run closes at 604900. At that
  instant a purchase is accepted and the owner's request is rejected; one second later,
  and before the start, the purchase is rejected.
\<close>

theorem C8_witness:
  "drawEndTime (draws genesis (currentDrawId genesis)) = 604900 \<and>
   (\<exists>s'. buyTicket (env_at 1001 TICKET_PRICE 604900) [6, 5, 4, 3, 2] [3, 2] genesis = Inr s') \<and>
   requestDrawRandomness (env_at 1000 0 604900) (Some 1) genesis = Inl DrawNotActive \<and>
   buyTicket (env_at 1001 TICKET_PRICE 604901) [6, 5, 4, 3, 2] [3, 2] genesis = Inl DrawNotActive \<and>
   buyTicket (env_at 1001 TICKET_PRICE 99) [6, 5, 4, 3, 2] [3, 2] genesis = Inl DrawNotActive"
  using C8_window_boundaries [of "env_at 1001 TICKET_PRICE 604900" "[6, 5, 4, 3, 2]" "[3, 2]"
          genesis "env_at 1000 0 604900" "Some 1"]
        C8_window_boundaries [of "env_at 1001 TICKET_PRICE 604901" "[6, 5, 4, 3, 2]" "[3, 2]"
          genesis "env_at 1000 0 604900" "Some 1"]
        C8_window_boundaries [of "env_at 1001 TICKET_PRICE 99" "[6, 5, 4, 3, 2]" "[3, 2]"
          genesis "env_at 1000 0 604900" "Some 1"]
        genesis_facts sample_picks_valid
  by (simp add: env_at_def TICKET_PRICE_def)

subsection \<open>Successful calls\<close>

text \<open>A settlement that succeeds ends by starting a draw, which is then the current one.\<close>

lemma settlement_opens_draw:
  assumes "findWinnersAndDistribute_with run e dId s = Inr s'"
  shows "\<not> isCompleted (draws s' (currentDrawId s'))"
  using assms
proof (cases rule: findWinnersAndDistribute_with_Inr)
  case (none ws)
  from startNewDraw_Inr [OF this] show ?thesis
    by simp
next
  case (some ws fee prize s2 s3)
  from startNewDraw_Inr [OF some(3)] show ?thesis
    by simp
qed

text \<open>The ways a transaction can succeed.\<close>

lemma exec_cases [consumes 1, case_names buy request replay settle admin withdraw]:
  assumes "exec e c s = Some (Inr s')"
  obtains
    (buy) mainNums stars where "buyTicket e mainNums stars s = Inr s'"
  | (request) reply where "requestDrawRandomness e reply s = Inr s'"
  | (replay) "s' = s"
  | (settle) run dId s0 where "findWinnersAndDistribute_with run e dId s0 = Inr s'"
  | (admin) "draws s' = draws s" "currentDrawId s' = currentDrawId s"
  | (withdraw) "isCompleted (draws s (currentDrawId s))"
proof (cases c)
  case (BuyTicket mainNums stars)
  with assms buy show ?thesis by simp
next
  case (RequestDrawRandomness reply)
  with assms request show ?thesis by simp
next
  case (RawFulfillRandomWords requestId randomWords)
  with assms have
    "fulfillRandomWords_with (nested e) e requestId randomWords s = Some (Inr s')"
    by (auto simp: exec_def rawFulfillRandomWords_with_def split: if_splits)
  from fulfillRandomWords_with_Inr [OF this] replay settle show ?thesis
    by blast
next
  case Pause
  with assms admin show ?thesis
    by (auto simp: pause_def split: if_splits)
next
  case Unpause
  with assms admin show ?thesis
    by (auto simp: unpause_def split: if_splits)
next
  case EmergencyWithdraw
  with assms withdraw show ?thesis
    by (auto simp: emergencyWithdraw_unfold split: if_splits)
next
  case (TransferOwnership newOwner)
  with assms admin show ?thesis
    by (auto simp: transferOwnership_def split: if_splits)
next
  case RenounceOwnership
  with assms admin show ?thesis
    by (auto simp: renounceOwnership_def split: if_splits)
qed

lemma constructor_Inr:
  assumes "constructor e vrfCoordinatorV2 = Inr s"
  shows "s = \<lparr>currentDrawId = 1,
              draws = (\<lambda>d. zero_Draw)(1 := zero_Draw
                \<lparr>drawId := 1, drawStartTime := block_timestamp e,
                 drawEndTime := block_timestamp e + SEVEN_DAYS\<rparr>),
              playerTickets = (\<lambda>d a. []),
              vrfRequestIdToDraw = (\<lambda>r. 0), vrfCoordinator = vrfCoordinatorV2,
              owner = msg_sender e, paused = False, balance = 0, paid = (\<lambda>a. 0)\<rparr>"
  using startNewDraw_Inr [OF assms [unfolded constructor_def]]
  by (simp add: zero_Draw_def)

text \<open>A stable property that the constructor establishes holds between transactions.\<close>

lemma reachable_stable:
  assumes st: "stable I"
    and init: "\<And>e vrfCoordinatorV2 s. constructor e vrfCoordinatorV2 = Inr s \<Longrightarrow> I s"
  shows "reachable s \<Longrightarrow> I s"
proof (induction rule: reachable.induct)
  case (reachable_constructor e vrfCoordinatorV2 s)
  then show ?case
    by (rule init)
next
  case (reachable_exec s e c s')
  from st reachable_exec.IH reachable_exec.hyps(2) show ?case
    by (rule exec_preserved)
qed

subsection \<open>The current draw between transactions\<close>

text \<open>
  Between transactions the current draw is not completed: a settlement, whatever the
  receivers of its transfers do, ends by starting the next draw.
\<close>

lemma current_draw_open: "reachable s \<Longrightarrow> \<not> isCompleted (draws s (currentDrawId s))"
proof (induction rule: reachable.induct)
  case (reachable_constructor e vrfCoordinatorV2 s)
  from constructor_Inr [OF this] show ?case
    by (simp add: zero_Draw_def)
next
  case (reachable_exec s e c s')
  from reachable_exec.hyps(2) show ?case
  proof (cases rule: exec_cases)
    case (buy mainNums stars)
    from buyTicket_Inr [OF this] reachable_exec.IH show ?thesis
      by simp
  next
    case (request reply)
    from requestDrawRandomness_Inr [OF this] reachable_exec.IH show ?thesis
      by auto
  next
    case replay
    with reachable_exec.IH show ?thesis by simp
  next
    case (settle run dId s0)
    then show ?thesis
      by (rule settlement_opens_draw)
  next
    case admin
    with reachable_exec.IH show ?thesis by simp
  next
    case withdraw
    with reachable_exec.IH show ?thesis by simp
  qed
qed

text \<open>
  Claim C3, for the calls that are transactions of their own. Between transactions the
  current draw is not completed, so the condition of \<open>emergencyWithdraw\<close>, paused and
  current draw completed, holds in no state between transactions: sent as a transaction,
  the call fails for every caller at every time, with \<open>ActiveDrawExists\<close> when the
  owner calls while paused, and does not send the balance. This holds whatever the
  receivers of ether did inside the earlier transactions.
\<close>

theorem C3_emergencyWithdraw_as_transaction_reverts:
  assumes "reachable s"
  shows "\<not> isCompleted (draws s (currentDrawId s)) \<and>
         \<not> (paused s \<and> isCompleted (draws s (currentDrawId s))) \<and>
         (\<exists>err. emergencyWithdraw e s = Inl err) \<and>
         (msg_sender e = owner s \<and> paused s \<longrightarrow> emergencyWithdraw e s = Inl ActiveDrawExists) \<and>
         exec e EmergencyWithdraw s \<noteq> Some (Inr s')"
  using current_draw_open [OF assms]
  by (simp add: emergencyWithdraw_unfold)

lemma execs_unlucky:
  "execs [(env_at 2000 0 700100, RawFulfillRandomWords 1 [10, 20, 30, 40, 45, 5, 7]),
          (env_at 1000 0 700200, Pause)] pending = Some unlucky"
  by (simp add: unlucky_def pending_def sold_def pause_def sample_defs)

lemma reachable_unlucky: "reachable unlucky"
  using reachable_pending execs_unlucky by (rule reachable_execs)

lemma unlucky_facts:
  "paused unlucky" "owner unlucky = 1000" "currentDrawId unlucky = 2"
  "isCompleted (draws unlucky 1)" "winners (draws unlucky 1) = []"
  "balance unlucky = 30000000000000000"
  by (simp_all add: unlucky_def pending_def sold_def pause_def sample_defs)

text \<open>
  Claim C3 at a concrete input: after a settlement without winners the pool of three
  ticket prices is in the balance, draw 1 is completed and the contract is paused, and
  the owner's withdrawal fails because draw 2 is current.
\<close>

theorem C3_witness:
  "reachable unlucky \<and> paused unlucky \<and> isCompleted (draws unlucky 1) \<and>
   balance unlucky = 30000000000000000 \<and>
   \<not> isCompleted (draws unlucky (currentDrawId unlucky)) \<and>
   emergencyWithdraw (env_at 1000 0 700300) unlucky = Inl ActiveDrawExists"
  using C3_emergencyWithdraw_as_transaction_reverts [OF reachable_unlucky, of "env_at 1000 0 700300"]
        reachable_unlucky unlucky_facts
  by (simp add: env_at_def)

lemma execs_reloaded:
  "execs [(env_at 2000 0 700100, RawFulfillRandomWords 1 [10, 20, 30, 40, 45, 5, 7]),
          (env_at 1000 TICKET_PRICE 700150, BuyTicket [2, 3, 4, 5, 6] [2, 3]),
          (env_at 1000 0 700200, Pause),
          (env_at 1000 0 1304901, RequestDrawRandomness (Some 2))] pending = Some reloaded"
  by (simp add: reloaded_def pending_def sold_def pause_def sample_defs)

lemma reachable_reloaded: "reachable reloaded"
  using reachable_pending execs_reloaded by (rule reachable_execs)

lemmas reenter_defs =
  reentering_def nested_def exec_def emergencyWithdraw_def emergencyWithdraw_with_def
  no_calls_def rawFulfillRandomWords_with_def fulfillRandomWords_with_def
  findWinnersAndDistribute_with_def

lemma execs_raided:
  "execs [(reentering, RawFulfillRandomWords 2 [1, 2, 3, 4, 5, 1, 2])] reloaded = Some raided"
  by (simp add: raided_def reloaded_def pending_def sold_def pause_def reenter_defs sample_defs)

lemma reachable_raided: "reachable raided"
  using reachable_reloaded execs_raided by (rule reachable_execs)

text \<open>
  Claim C3 as stated fails: \<open>emergencyWithdraw\<close> does not always revert. In the state
  \<open>reloaded\<close> between transactions the contract is paused and holds four ticket
  prices, three of them the pool of draw 1. The delivery for request 2 succeeds. Inside
  it, at the storage \<open>halfway\<close>, the current draw is completed and the successor is not
  yet started; there the operator's code calls \<open>emergencyWithdraw\<close>, the call succeeds
  and sends the operator the three ticket prices that are left, and the delivery ends by
  starting draw 3. The balance is then empty and the operator has been sent all four
  ticket prices, while the settlement of draw 2 alone sends one.
\<close>

theorem C3_counterexample:
  "reachable reloaded \<and> paused reloaded \<and> owner reloaded = 1000 \<and>
   balance reloaded = 40000000000000000 \<and>
   totalPrizePool (draws reloaded 2) = 10000000000000000 \<and>
   exec reentering (RawFulfillRandomWords 2 [1, 2, 3, 4, 5, 1, 2]) reloaded = Some (Inr raided) \<and>
   paused halfway \<and> isCompleted (draws halfway (currentDrawId halfway)) \<and>
   calls_back reentering 1000 halfway = [(0, EmergencyWithdraw)] \<and>
   emergencyWithdraw (reentering\<lparr>msg_sender := 1000, depth := 0\<rparr>) halfway
     = Inr (halfway\<lparr>balance := 0, paid := (paid halfway)(1000 := 40000000000000000)\<rparr>) \<and>
   startNewDraw reentering
       (halfway\<lparr>balance := 0, paid := (paid halfway)(1000 := 40000000000000000)\<rparr>)
     = Inr raided \<and>
   reachable raided \<and> balance raided = 0 \<and> paid raided 1000 = 40000000000000000"
  using reachable_reloaded reachable_raided
  by (simp add: halfway_def raided_def reloaded_def pending_def sold_def pause_def
        reenter_defs sample_defs)

subsection \<open>One request per draw\<close>









subsection \<open>The ledger of a draw\<close>

lemma concat_map_upd_notin:
  "a \<notin> set pls \<Longrightarrow> concat (map (f(a := v)) pls) = concat (map f pls)"
  by (induction pls) auto

lemma length_concat_map_upd_in:
  "distinct pls \<Longrightarrow> a \<in> set pls \<Longrightarrow>
   length (concat (map (f(a := f a @ [t])) pls)) = length (concat (map f pls)) + 1"
  by (induction pls) (auto simp: concat_map_upd_notin)

lemma ledger_ok_cong:
  "draws s' d = draws s d \<Longrightarrow> playerTickets s' d = playerTickets s d \<Longrightarrow>
   ledger_ok s' d = ledger_ok s d"
  by (simp add: ledger_ok_def ticketsOf_def)

lemma ledger_ok_fields:
  "totalPrizePool (draws s' d) = totalPrizePool (draws s d) \<Longrightarrow>
   totalTickets (draws s' d) = totalTickets (draws s d) \<Longrightarrow>
   players (draws s' d) = players (draws s d) \<Longrightarrow>
   ticketCounts (draws s' d) = ticketCounts (draws s d) \<Longrightarrow>
   playerTickets s' d = playerTickets s d \<Longrightarrow>
   ledger_ok s' d = ledger_ok s d"
  by (simp add: ledger_ok_def ticketsOf_def)

lemma unused_fields:
  "players (draws s' d) = players (draws s d) \<Longrightarrow>
   ticketCounts (draws s' d) = ticketCounts (draws s d) \<Longrightarrow>
   playerTickets s' d = playerTickets s d \<Longrightarrow>
   unused s' d = unused s d"
  by (simp add: unused_def)

lemma unused_ledger_ok:
  "unused s d \<Longrightarrow> totalPrizePool (draws s d) = 0 \<Longrightarrow> totalTickets (draws s d) = 0 \<Longrightarrow>
   ledger_ok s d"
  by (simp add: unused_def ledger_ok_def ticketsOf_def)

lemma buyTicket_ledger_ok:
  assumes buy: "buyTicket e mainNums stars s = Inr s'" and ok: "ledger_ok s (currentDrawId s)"
  shows "ledger_ok s' (currentDrawId s)"
proof -
  let ?c = "currentDrawId s"
  let ?a = "msg_sender e"
  let ?t = "\<lparr>mainNumbers = mainNums, luckyStars = stars, player = ?a,
             timestamp = block_timestamp e\<rparr>"
  note s' = buyTicket_Inr [OF buy]
  have tk: "playerTickets s' ?c = (playerTickets s ?c)(?a := playerTickets s ?c ?a @ [?t])"
    by (subst s') simp
  have pool: "totalPrizePool (draws s' ?c) = totalPrizePool (draws s ?c) + TICKET_PRICE"
    and tot: "totalTickets (draws s' ?c) = totalTickets (draws s ?c) + 1"
    and cnt: "ticketCounts (draws s' ?c) =
                (ticketCounts (draws s ?c))(?a := ticketCounts (draws s ?c) ?a + 1)"
    and pls: "players (draws s' ?c) =
                (if ticketCounts (draws s ?c) ?a = 0 then players (draws s ?c) @ [?a]
                 else players (draws s ?c))"
    by (subst s', simp)+
  from ok have
    o1: "totalPrizePool (draws s ?c) = TICKET_PRICE * totalTickets (draws s ?c)" and
    o2: "totalTickets (draws s ?c) = length (concat (map (playerTickets s ?c) (players (draws s ?c))))" and
    o3: "distinct (players (draws s ?c))" and
    o4: "\<And>a. a \<in> set (players (draws s ?c)) \<longleftrightarrow> playerTickets s ?c a \<noteq> []" and
    o5: "\<And>a. ticketCounts (draws s ?c) a = length (playerTickets s ?c a)"
    by (simp_all add: ledger_ok_def ticketsOf_def)
  show ?thesis
  proof (cases "ticketCounts (draws s ?c) ?a = 0")
    case True
    with o5 o4 have new: "?a \<notin> set (players (draws s ?c))" "playerTickets s ?c ?a = []"
      by auto
    from True new o1 o2 o3 o4 o5 show ?thesis
      unfolding ledger_ok_def ticketsOf_def pool tot cnt pls tk
      by (auto simp: concat_map_upd_notin)
  next
    case False
    with o5 o4 have old: "?a \<in> set (players (draws s ?c))"
      by auto
    from False old o1 o2 o3 o4 o5 show ?thesis
      unfolding ledger_ok_def ticketsOf_def pool tot cnt pls tk
      by (auto simp: length_concat_map_upd_in)
  qed
qed

lemma buyTicket_frame:
  assumes "buyTicket e mainNums stars s = Inr s'"
  shows "currentDrawId s' = currentDrawId s"
    and "d \<noteq> currentDrawId s \<Longrightarrow> draws s' d = draws s d"
    and "d \<noteq> currentDrawId s \<Longrightarrow> playerTickets s' d = playerTickets s d"
  by (subst buyTicket_Inr [OF assms], simp)+

lemma buyTicket_ledger_inv:
  assumes buy: "buyTicket e mainNums stars s = Inr s'" and inv: "ledger_inv s"
  shows "ledger_inv s'"
  unfolding ledger_inv_def
proof (intro allI conjI impI)
  fix d
  note fr = buyTicket_frame [OF buy]
  show "ledger_ok s' d"
  proof (cases "d = currentDrawId s")
    case True
    from inv have "ledger_ok s (currentDrawId s)"
      by (simp add: ledger_inv_def)
    with buy have "ledger_ok s' (currentDrawId s)"
      by (rule buyTicket_ledger_ok)
    with True show ?thesis
      by simp
  next
    case False
    from fr(2) [OF False] fr(3) [OF False] have "ledger_ok s' d = ledger_ok s d"
      by (rule ledger_ok_cong)
    with inv show ?thesis
      by (simp add: ledger_inv_def)
  qed
  assume "currentDrawId s' < d"
  with fr(1) have d: "currentDrawId s < d"
    by simp
  then have ne: "d \<noteq> currentDrawId s"
    by simp
  from inv d have "unused s d"
    by (simp add: ledger_inv_def)
  with fr(2) [OF ne] fr(3) [OF ne] show "unused s' d"
    by (simp add: unused_def)
qed

lemma ledger_inv_fields:
  assumes inv: "ledger_inv s"
    and cur: "currentDrawId s' = currentDrawId s"
    and tk: "playerTickets s' = playerTickets s"
    and pool: "\<And>d. totalPrizePool (draws s' d) = totalPrizePool (draws s d)"
    and tot: "\<And>d. totalTickets (draws s' d) = totalTickets (draws s d)"
    and pl: "\<And>d. players (draws s' d) = players (draws s d)"
    and tc: "\<And>d. ticketCounts (draws s' d) = ticketCounts (draws s d)"
  shows "ledger_inv s'"
  unfolding ledger_inv_def
proof (intro allI conjI impI)
  fix d
  from tk have tkd: "playerTickets s' d = playerTickets s d"
    by simp
  from pool tot pl tc tkd have "ledger_ok s' d = ledger_ok s d"
    by (rule ledger_ok_fields)
  with inv show "ledger_ok s' d"
    by (simp add: ledger_inv_def)
  assume "currentDrawId s' < d"
  with cur inv have "unused s d"
    by (simp add: ledger_inv_def)
  moreover from pl tc tkd have "unused s' d = unused s d"
    by (rule unused_fields)
  ultimately show "unused s' d"
    by simp
qed

lemma startNewDraw_ledger_inv:
  assumes new: "startNewDraw e s = Inr s'" and inv: "ledger_inv s"
  shows "ledger_inv s'"
  unfolding ledger_inv_def
proof (intro allI conjI impI)
  fix d
  note f = startNewDraw_Inr [OF new]
  from f have cur: "currentDrawId s' = currentDrawId s + 1"
    by simp
  from f have tk: "playerTickets s' d = playerTickets s d"
    by simp
  from f have pl: "players (draws s' d) = players (draws s d)"
    and tc: "ticketCounts (draws s' d) = ticketCounts (draws s d)"
    by simp_all
  have un: "unused s' d = unused s d"
    using pl tc tk by (rule unused_fields)
  show "ledger_ok s' d"
  proof (cases "d = currentDrawId s + 1")
    case True
    with f have z: "totalPrizePool (draws s' d) = 0" "totalTickets (draws s' d) = 0"
      by simp_all
    from True inv have "unused s d"
      by (simp add: ledger_inv_def)
    with un have "unused s' d"
      by simp
    then show ?thesis
      using z by (rule unused_ledger_ok)
  next
    case False
    with f have "totalPrizePool (draws s' d) = totalPrizePool (draws s d)"
      "totalTickets (draws s' d) = totalTickets (draws s d)"
      by simp_all
    then have "ledger_ok s' d = ledger_ok s d"
      using pl tc tk by (rule ledger_ok_fields)
    with inv show ?thesis
      by (simp add: ledger_inv_def)
  qed
  assume "currentDrawId s' < d"
  with cur have "currentDrawId s < d" by simp
  with inv have "unused s d"
    by (simp add: ledger_inv_def)
  with un show "unused s' d"
    by simp
qed

lemma stable_ledger_inv: "stable ledger_inv"
proof (rule stableI)
  fix s :: state and v to
  assume "ledger_inv s"
  then show "ledger_inv (s\<lparr>balance := balance s - v, paid := (paid s)(to := paid s to + v)\<rparr>)"
    by (rule ledger_inv_fields) simp_all
next
  fix s :: state and d winMain winStars
  assume "ledger_inv s"
  then show "ledger_inv (s\<lparr>draws := (draws s)(d := (draws s d)
             \<lparr>winningMainNumbers := winMain, winningLuckyStars := winStars\<rparr>)\<rparr>)"
    by (rule ledger_inv_fields) simp_all
next
  fix s :: state and d ws
  assume "ledger_inv s"
  then show "ledger_inv (s\<lparr>draws := (draws s)(d := (draws s d)\<lparr>winners := ws, isCompleted := True\<rparr>)\<rparr>)"
    by (rule ledger_inv_fields) simp_all
next
  fix e :: env and s s' :: state
  assume "ledger_inv s" and "startNewDraw e s = Inr s'"
  from this(2,1) show "ledger_inv s'"
    by (rule startNewDraw_ledger_inv)
next
  fix e :: env and mainNums stars and s s' :: state
  assume "ledger_inv s" and "buyTicket e mainNums stars s = Inr s'"
  from this(2,1) show "ledger_inv s'"
    by (rule buyTicket_ledger_inv)
next
  fix e :: env and reply and s s' :: state
  assume inv: "ledger_inv s" and "requestDrawRandomness e reply s = Inr s'"
  from requestDrawRandomness_Inr [OF this(2)] obtain requestId where
    s': "s' = s\<lparr>draws := (draws s)(currentDrawId s :=
                (draws s (currentDrawId s))\<lparr>randomnessRequested := True\<rparr>),
              vrfRequestIdToDraw := (vrfRequestIdToDraw s)(requestId := currentDrawId s)\<rparr>"
    by blast
  from inv show "ledger_inv s'"
    by (rule ledger_inv_fields) (simp_all add: s')
next
  fix s :: state and b
  assume "ledger_inv s"
  then show "ledger_inv (s\<lparr>paused := b\<rparr>)"
    by (rule ledger_inv_fields) simp_all
next
  fix s :: state and a
  assume "ledger_inv s"
  then show "ledger_inv (s\<lparr>owner := a\<rparr>)"
    by (rule ledger_inv_fields) simp_all
qed

lemma reachable_ledger_inv: "reachable s \<Longrightarrow> ledger_inv s"
proof (rule reachable_stable [OF stable_ledger_inv])
  fix e vrfCoordinatorV2 s
  assume "constructor e vrfCoordinatorV2 = Inr s"
  from constructor_Inr [OF this] show "ledger_inv s"
    by (simp add: ledger_inv_def ledger_ok_def unused_def ticketsOf_def zero_Draw_def)
qed

text \<open>
  With the ledger in order the winner scan stays inside its array: the array has one cell
  per ticket record.
\<close>

lemma length_filter_concat_le:
  "length (concat (map (\<lambda>pl. filter P (tk pl)) pls)) \<le> length (concat (map tk pls))"
  by (induction pls) (auto intro: add_mono)

lemma ledger_ok_winners_fit:
  "ledger_ok s dId \<Longrightarrow> length (winnerList s dId) \<le> totalTickets (draws s dId)"
  by (simp add: ledger_ok_def ticketsOf_def length_winnerList length_filter_concat_le)

text \<open>
  Claim C9. In every state between transactions, so after every sequence of accepted
  purchases, and for every draw: the pool is the ticket price times the ticket counter and is the sum of
  the prices of the ticket records of the draw; the counter is the number of those
  records, which are the records of the listed participants since nobody else has one;
  and the list of participants has no duplicate and consists of exactly those who hold a
  record.
\<close>

theorem C9_ledger_of_a_draw:
  assumes "reachable s"
  shows "totalPrizePool (draws s d) = TICKET_PRICE * totalTickets (draws s d) \<and>
         totalPrizePool (draws s d) = sum_list (map (\<lambda>t. TICKET_PRICE) (ticketsOf s d)) \<and>
         totalTickets (draws s d) = length (ticketsOf s d) \<and>
         (\<forall>a. a \<notin> set (players (draws s d)) \<longrightarrow> playerTickets s d a = []) \<and>
         distinct (players (draws s d)) \<and>
         set (players (draws s d)) = {a. playerTickets s d a \<noteq> []}"
proof -
  from reachable_ledger_inv [OF assms] have ok: "ledger_ok s d"
    by (simp add: ledger_inv_def)
  have "sum_list (map (\<lambda>t. TICKET_PRICE) (ticketsOf s d)) = TICKET_PRICE * length (ticketsOf s d)"
    by (simp add: sum_list_triv)
  with ok show ?thesis
    by (auto simp: ledger_ok_def)
qed

lemma sold_ledger:
  "players (draws sold 1) = [1001, 1002]"
  "length (playerTickets sold 1 1001) = 2"
  "length (playerTickets sold 1 1002) = 1"
  by (simp_all add: sold_def sample_defs)

text \<open>
  Claim C9 at a concrete input: after the three purchases of the sample run, two of them
  by participant 1001, the draw lists 1001 and 1002 once each, counts three tickets and
  holds three ticket prices.
\<close>

theorem C9_witness:
  "reachable sold \<and> players (draws sold 1) = [1001, 1002] \<and>
   length (playerTickets sold 1 1001) = 2 \<and>
   length (ticketsOf sold 1) = 3 \<and>
   totalTickets (draws sold 1) = 3 \<and>
   totalPrizePool (draws sold 1) = 3 * TICKET_PRICE"
  using C9_ledger_of_a_draw [OF reachable_sold, of 1] reachable_sold sold_ledger
  by (simp add: ticketsOf_def)

end
